theory Spec2Isabelle
  imports Main
begin

section \<open>The CSS selector builder of 06-objects-tasks.js\<close>

text \<open>
  The module exports one object literal, \<^verbatim>\<open>cssSelectorBuilder\<close>, whose methods
  mutate its own fields and return \<^verbatim>\<open>this\<close>. The object is a record of its
  mutable fields; a method is a function from the receiver's fields to a result
  and the receiver's new fields. A \<^verbatim>\<open>throw\<close> is the left injection of the
  result, and the fields it leaves behind are returned with it, since the object
  outlives the exception.
\<close>

subsection \<open>Data\<close>

text \<open>\<^verbatim>\<open>new Error(msg)\<close>: the only exception the module throws.\<close>

datatype error = Error string

type_synonym 'a result = "error + 'a"

text \<open>
  The fields of the object literal that are assigned to. \<^verbatim>\<open>order\<close> holds the
  positions \<^verbatim>\<open>indexOf\<close> returned, \<^verbatim>\<open>combo\<close> the stashed strings,
  \<^verbatim>\<open>build\<close> the fragments of the selector under construction. Fragment
  values are strings.
\<close>

record builder =
  idCheck :: bool
  pseudoElementCheck :: bool
  order :: "int list"
  combo :: "string list"
  build :: "string list"

text \<open>The field \<^verbatim>\<open>weight\<close> is never assigned to: a constant.\<close>

definition weight :: "string list" where
  "weight = [''element'', ''id '', ''class'', ''attribute'', ''pseudo-class'', ''pseudo-element'']"

text \<open>The object literal as the module creates it.\<close>

definition cssSelectorBuilder :: builder where
  "cssSelectorBuilder =
     \<lparr>idCheck = False, pseudoElementCheck = False, order = [], combo = [], build = []\<rparr>"

subsection \<open>Array and string primitives of the host language\<close>

text \<open>\<^verbatim>\<open>Array.prototype.indexOf\<close>: the first index holding the element, or -1.\<close>

fun indexOfFrom :: "int \<Rightarrow> 'a list \<Rightarrow> 'a \<Rightarrow> int" where
  "indexOfFrom i [] x = -1"
| "indexOfFrom i (y # ys) x = (if y = x then i else indexOfFrom (i + 1) ys x)"

definition indexOf :: "'a list \<Rightarrow> 'a \<Rightarrow> int" where
  "indexOf xs x = indexOfFrom 0 xs x"

text \<open>\<^verbatim>\<open>Array.prototype.pop\<close>: the last element and the rest; \<^verbatim>\<open>undefined\<close>
  (here \<open>None\<close>) on the empty array, which stays empty.\<close>

definition pop :: "'a list \<Rightarrow> 'a option \<times> 'a list" where
  "pop xs = (if xs = [] then (None, []) else (Some (last xs), butlast xs))"

text \<open>What a template literal prints for a string or \<^verbatim>\<open>undefined\<close>.\<close>

fun toString :: "string option \<Rightarrow> string" where
  "toString None = ''undefined''"
| "toString (Some s) = s"

subsection \<open>Methods of the builder\<close>

text \<open>Sequencing of two statements: an exception of the first skips the second.\<close>

definition andThen ::
  "(builder \<Rightarrow> 'a result \<times> builder) \<Rightarrow> (builder \<Rightarrow> 'b result \<times> builder) \<Rightarrow>
   builder \<Rightarrow> 'b result \<times> builder" where
  "andThen m k this =
     (case m this of (Inl e, this') \<Rightarrow> (Inl e, this') | (Inr _, this') \<Rightarrow> k this')"

definition clear :: "builder \<Rightarrow> builder" where
  "clear this =
     this\<lparr>combo := [], order := [], build := [], idCheck := False, pseudoElementCheck := False\<rparr>"

definition error :: "string \<Rightarrow> builder \<Rightarrow> 'a result \<times> builder" where
  "error msg this = (Inl (Error msg), clear this)"

definition stringify :: "builder \<Rightarrow> string \<times> builder" where
  "stringify this = (let result = concat (build this) in (result, clear this))"

text \<open>
  \<^verbatim>\<open>this.order[this.order.length - 1] > pos\<close>: on the empty array the read is
  \<^verbatim>\<open>undefined\<close> and the comparison is false.
\<close>

definition inOrder :: "string \<Rightarrow> builder \<Rightarrow> unit result \<times> builder" where
  "inOrder el this =
     (let pos = indexOf weight el in
      if order this \<noteq> [] \<and> last (order this) > pos then
        error ''Selector parts should be arranged in the following order: element, id, class, attribute, pseudo-class, pseudo-element'' this
      else (Inr (), this\<lparr>order := order this @ [pos]\<rparr>))"

text \<open>
  The fragment methods return \<^verbatim>\<open>this\<close>: the result \<open>Inr ()\<close> stands for the
  receiver, whose fields are the second component.
\<close>

definition element :: "string \<Rightarrow> builder \<Rightarrow> unit result \<times> builder" where
  "element v =
     andThen
       (\<lambda>this.
          if length (build this) > 0 then
            andThen
              (\<lambda>this.
                 if length (build this) < 2 then
                   error ''Element, id and pseudo-element should not occur more then one time inside the selector'' this
                 else (Inr (), this))
              (\<lambda>this.
                 (Inr (), this\<lparr>combo := combo this @ [concat (build this)], build := [],
                              idCheck := False, pseudoElementCheck := False, order := []\<rparr>))
              this
          else (Inr (), this))
       (andThen (inOrder (weight ! 0))
          (\<lambda>this. (Inr (), this\<lparr>build := build this @ [v]\<rparr>)))"

definition id_sel :: "string \<Rightarrow> builder \<Rightarrow> unit result \<times> builder" where
  "id_sel v =
     andThen
       (\<lambda>this.
          if idCheck this then
            error ''Element, id and pseudo-element should not occur more then one time inside the selector'' this
          else (Inr (), this))
       (andThen (\<lambda>this. (Inr (), this\<lparr>idCheck := True\<rparr>))
          (andThen (inOrder (weight ! 1))
             (\<lambda>this. (Inr (), this\<lparr>build := build this @ [''#'' @ v]\<rparr>))))"

definition class_sel :: "string \<Rightarrow> builder \<Rightarrow> unit result \<times> builder" where
  "class_sel v =
     andThen (inOrder (weight ! 2))
       (\<lambda>this. (Inr (), this\<lparr>build := build this @ [''.'' @ v]\<rparr>))"

definition attr :: "string \<Rightarrow> builder \<Rightarrow> unit result \<times> builder" where
  "attr v =
     andThen (inOrder (weight ! 3))
       (\<lambda>this. (Inr (), this\<lparr>build := build this @ [''['' @ v @ '']'']\<rparr>))"

definition pseudoClass :: "string \<Rightarrow> builder \<Rightarrow> unit result \<times> builder" where
  "pseudoClass v =
     andThen (inOrder (weight ! 4))
       (\<lambda>this. (Inr (), this\<lparr>build := build this @ ['':'' @ v]\<rparr>))"

definition pseudoElement :: "string \<Rightarrow> builder \<Rightarrow> unit result \<times> builder" where
  "pseudoElement v =
     andThen
       (\<lambda>this.
          if pseudoElementCheck this then
            error ''Element, id and pseudo-element should not occur more then one time inside the selector'' this
          else (Inr (), this))
       (andThen (\<lambda>this. (Inr (), this\<lparr>pseudoElementCheck := True\<rparr>))
          (andThen (inOrder (weight ! 5))
             (\<lambda>this. (Inr (), this\<lparr>build := build this @ [''::'' @ v]\<rparr>))))"

subsection \<open>The fragment methods by kind\<close>

text \<open>
  The six fragment methods, indexed by the kind of fragment they append, so that a
  chain of calls is a list. \<open>weightArg\<close> is the argument each method passes to
  \<open>inOrder\<close>; \<open>rank\<close> is the position \<open>inOrder\<close> computes from it.
\<close>

datatype kind = ElementK | IdK | ClassK | AttributeK | PseudoClassK | PseudoElementK

fun fragment :: "kind \<Rightarrow> string \<Rightarrow> builder \<Rightarrow> unit result \<times> builder" where
  "fragment ElementK = element"
| "fragment IdK = id_sel"
| "fragment ClassK = class_sel"
| "fragment AttributeK = attr"
| "fragment PseudoClassK = pseudoClass"
| "fragment PseudoElementK = pseudoElement"

fun weightArg :: "kind \<Rightarrow> string" where
  "weightArg ElementK = weight ! 0"
| "weightArg IdK = weight ! 1"
| "weightArg ClassK = weight ! 2"
| "weightArg AttributeK = weight ! 3"
| "weightArg PseudoClassK = weight ! 4"
| "weightArg PseudoElementK = weight ! 5"

definition rank :: "kind \<Rightarrow> int" where
  "rank k = indexOf weight (weightArg k)"

text \<open>A chain \<^verbatim>\<open>builder.f1(v1).f2(v2)...\<close>: the first exception ends it.\<close>

fun appendAll :: "(kind \<times> string) list \<Rightarrow> builder \<Rightarrow> unit result \<times> builder" where
  "appendAll [] this = (Inr (), this)"
| "appendAll ((k, v) # fs) this = andThen (fragment k v) (appendAll fs) this"

subsection \<open>Objects by reference: \<open>combine\<close>\<close>

text \<open>
  \<^verbatim>\<open>combine(selector1, combinator, selector2)\<close> reads and writes three objects
  that may be one and the same (every fragment method returns \<^verbatim>\<open>this\<close>, so the
  arguments of \<^verbatim>\<open>builder.combine(builder.element(..), c, builder.element(..))\<close>
  are the builder itself). Objects therefore live in a heap, and \<open>combine\<close> takes
  references. The statements run in the order of the source: the pop on
  \<^verbatim>\<open>selector2.combo\<close>, the read of \<^verbatim>\<open>selector1.build\<close>, the assignment
  \<^verbatim>\<open>this.build = []\<close>, the push. It returns \<^verbatim>\<open>this\<close>.
\<close>

type_synonym ref = nat

type_synonym heap = "ref \<Rightarrow> builder"

definition combine :: "ref \<Rightarrow> ref \<Rightarrow> string \<Rightarrow> ref \<Rightarrow> heap \<Rightarrow> ref \<times> heap" where
  "combine this selector1 combinator selector2 h =
     (let (resultLeft, rest) = pop (combo (h selector2));
          h1 = h(selector2 := (h selector2)\<lparr>combo := rest\<rparr>);
          resultRight = concat (build (h1 selector1));
          h2 = h1(this := (h1 this)\<lparr>build := []\<rparr>);
          h3 = h2(this := (h2 this)\<lparr>build := build (h2 this) @
                 [toString resultLeft @ '' '' @ combinator @ '' '' @ resultRight]\<rparr>)
      in (this, h3))"

text \<open>A method of the object at a reference.\<close>

definition invoke :: "ref \<Rightarrow> (builder \<Rightarrow> 'a \<times> builder) \<Rightarrow> heap \<Rightarrow> 'a \<times> heap" where
  "invoke r m h = (case m (h r) of (x, this') \<Rightarrow> (x, h(r := this')))"

text \<open>The heap of builders as the object literal creates them.\<close>

definition freshHeap :: heap where
  "freshHeap = (\<lambda>r. cssSelectorBuilder)"

subsection \<open>Clients: sequences of calls, selector expressions\<close>

text \<open>
  Any client of the module is a sequence of method calls on builders; a caller may
  catch an exception and go on, so a sequence runs to its end on the heap each call
  leaves behind.
\<close>

datatype action = Append ref kind string | Stringify ref | Combine ref ref string ref

fun exec :: "action \<Rightarrow> heap \<Rightarrow> heap" where
  "exec (Append r k v) h = snd (invoke r (fragment k v) h)"
| "exec (Stringify r) h = snd (invoke r stringify h)"
| "exec (Combine this s1 c s2) h = snd (combine this s1 c s2 h)"

fun execAll :: "action list \<Rightarrow> heap \<Rightarrow> heap" where
  "execAll [] h = h"
| "execAll (a # as) h = execAll as (exec a h)"

text \<open>
  The expressions of the module's documentation: a chain of fragment calls on the
  builder, or \<^verbatim>\<open>builder.combine(left, combinator, right)\<close> whose arguments are
  such expressions, evaluated left to right before the call. All of them evaluate
  to the builder \<open>b\<close> they are called on.
\<close>

datatype selector = Chain "(kind \<times> string) list" | Combined selector string selector

fun evalSelector :: "ref \<Rightarrow> selector \<Rightarrow> heap \<Rightarrow> unit result \<times> heap" where
  "evalSelector b (Chain fs) h = invoke b (appendAll fs) h"
| "evalSelector b (Combined l c r) h =
     (case evalSelector b l h of
        (Inl e, h1) \<Rightarrow> (Inl e, h1)
      | (Inr _, h1) \<Rightarrow>
          (case evalSelector b r h1 of
             (Inl e, h2) \<Rightarrow> (Inl e, h2)
           | (Inr _, h2) \<Rightarrow> (Inr (), snd (combine b b c b h2))))"

text \<open>\<^verbatim>\<open>expr.stringify()\<close> on the fresh builder: the string, or the exception.\<close>

definition stringifySelector :: "ref \<Rightarrow> selector \<Rightarrow> string result" where
  "stringifySelector b e =
     (case evalSelector b e freshHeap of
        (Inl err, h) \<Rightarrow> Inl err
      | (Inr _, h) \<Rightarrow> Inr (fst (invoke b stringify h)))"

subsection \<open>What the specification expects\<close>

text \<open>
  The text of a fragment by kind, the rendering of a selector expression with the
  combinator between single spaces, and the two rules on a simple selector: ranks
  in non-decreasing order, and at most one element, id and pseudo-element.
\<close>

fun fragmentText :: "kind \<times> string \<Rightarrow> string" where
  "fragmentText (ElementK, v) = v"
| "fragmentText (IdK, v) = ''#'' @ v"
| "fragmentText (ClassK, v) = ''.'' @ v"
| "fragmentText (AttributeK, v) = ''['' @ v @ '']''"
| "fragmentText (PseudoClassK, v) = '':'' @ v"
| "fragmentText (PseudoElementK, v) = ''::'' @ v"

fun render :: "selector \<Rightarrow> string" where
  "render (Chain fs) = concat (map fragmentText fs)"
| "render (Combined l c r) = render l @ '' '' @ c @ '' '' @ render r"

definition wellFormed :: "(kind \<times> string) list \<Rightarrow> bool" where
  "wellFormed fs =
     (sorted (map (\<lambda>f. rank (fst f)) fs)
      \<and> count_list (map fst fs) ElementK \<le> 1
      \<and> count_list (map fst fs) IdK \<le> 1
      \<and> count_list (map fst fs) PseudoElementK \<le> 1)"

text \<open>
  The selector expressions \<open>combine\<close> renders as the specification expects. A
  left operand is \<open>archived\<close> by the element call that opens the right operand:
  a well-formed chain of at least two fragments. A right operand opens with an
  element call and is a well-formed chain or a \<open>combine\<close> of such operands.
\<close>

fun archived :: "selector \<Rightarrow> bool" where
  "archived (Chain fs) = (wellFormed fs \<and> 2 \<le> length fs)"
| "archived (Combined l c r) = False"

fun opensWithElement :: "selector \<Rightarrow> bool" where
  "opensWithElement (Chain fs) = (case fs of [] \<Rightarrow> False | f # _ \<Rightarrow> fst f = ElementK)"
| "opensWithElement (Combined l c r) = opensWithElement l"

fun combinable :: "selector \<Rightarrow> bool" where
  "combinable (Chain fs) = wellFormed fs"
| "combinable (Combined l c r) = (archived l \<and> opensWithElement r \<and> combinable r)"

subsection \<open>Names used in the statements\<close>

text \<open>The two message texts of the source, and the uniqueness flag of a kind.\<close>

definition duplicateMessage :: string where
  "duplicateMessage = ''Element, id and pseudo-element should not occur more then one time inside the selector''"

definition orderMessage :: string where
  "orderMessage = ''Selector parts should be arranged in the following order: element, id, class, attribute, pseudo-class, pseudo-element''"

fun flagged :: "kind \<Rightarrow> builder \<Rightarrow> bool" where
  "flagged IdK this = idCheck this"
| "flagged PseudoElementK this = pseudoElementCheck this"
| "flagged k this = False"

fun setFlag :: "kind \<Rightarrow> builder \<Rightarrow> builder" where
  "setFlag IdK this = this\<lparr>idCheck := True\<rparr>"
| "setFlag PseudoElementK this = this\<lparr>pseudoElementCheck := True\<rparr>"
| "setFlag k this = this"

text \<open>
  What every sequence of calls keeps true of a builder: the flags say whether the
  recorded ranks hold an id and a pseudo-element, the recorded ranks are in order
  with at most one id and one pseudo-element, and an empty fragment list has no
  recorded rank.
\<close>

definition consistent :: "builder \<Rightarrow> bool" where
  "consistent this =
     ((idCheck this \<longleftrightarrow> rank IdK \<in> set (order this))
      \<and> (pseudoElementCheck this \<longleftrightarrow> rank PseudoElementK \<in> set (order this))
      \<and> sorted (order this)
      \<and> count_list (order this) (rank IdK) \<le> 1
      \<and> count_list (order this) (rank PseudoElementK) \<le> 1
      \<and> (build this = [] \<longrightarrow> order this = []))"

section \<open>The JSON helpers\<close>

text \<open>
  \<^verbatim>\<open>getJSON\<close> and \<^verbatim>\<open>fromJSON\<close> call three built-ins of the host runtime:
  \<^verbatim>\<open>JSON.stringify\<close>, \<^verbatim>\<open>JSON.parse\<close> and \<^verbatim>\<open>Object.setPrototypeOf\<close>. They are not
  part of the sources. They are modelled here from the specification (standard JSON
  encoding rules, key order and array order preserved, a parse error on text that
  is not valid JSON) and from their documentation, within these limits:
  \<^item> a number is an integer, printed and read as a decimal numeral; fractions and
    exponents, whose printing depends on floating-point rounding, are outside the
    model, and the parser has no value for them;
  \<^item> a string is a list of the 256 code units of \<open>char\<close>; an escape \<^verbatim>\<open>\uXXXX\<close>
    above \<^verbatim>\<open>\u00ff\<close> denotes a code unit outside the model, and the parser has
    no value for it;
  \<^item> an object is the list of its own enumerable fields in the order the runtime
    enumerates them, with no key twice.
\<close>

subsection \<open>Values\<close>

text \<open>
  Modelled from the spec: the data of a JSON-representable value. The two
  structured kinds are arrays and objects; the others are primitive.
\<close>

datatype json =
  JNull | JBool bool | JNumber int | JString string
| JArray "json list" | JObject "(string \<times> json) list"

text \<open>
  Modelled from the spec: a value as the runtime holds it. \<open>fieldsOf\<close> is its data;
  \<open>prototypeOf\<close> is the prototype \<^verbatim>\<open>Object.setPrototypeOf\<close> has given it, and \<open>None\<close>
  stands for the prototype it was created with, as for every plain value.
\<close>

datatype 'p jsvalue = JSValue (prototypeOf: "'p option") (fieldsOf: json)

text \<open>The exceptions of the three built-ins; \<open>SyntaxError\<close> is the spec's parse error.\<close>

datatype exception = SyntaxError | TypeError

definition plain :: "'p jsvalue \<Rightarrow> bool" where
  "plain v = (prototypeOf v = None)"

fun structured :: "json \<Rightarrow> bool" where
  "structured (JArray vs) = True"
| "structured (JObject kvs) = True"
| "structured v = False"

text \<open>
  The values the model serialises as the runtime does: numbers within the safe
  integers, and objects that hold no key twice.
\<close>

fun representable :: "json \<Rightarrow> bool" where
  "representable JNull = True"
| "representable (JBool b) = True"
| "representable (JNumber i) = (\<bar>i\<bar> \<le> 9007199254740991)"
| "representable (JString s) = True"
| "representable (JArray vs) = list_all representable vs"
| "representable (JObject kvs) =
     (distinct (map fst kvs) \<and> list_all (\<lambda>kv. representable (snd kv)) kvs)"

subsection \<open>\<^verbatim>\<open>JSON.stringify\<close>\<close>

text \<open>
  Modelled from the spec: the serialiser. A string is put between double quotes,
  with the quote and the backslash escaped, the control characters written as
  \<^verbatim>\<open>\b \t \n \f \r\<close> or \<^verbatim>\<open>\u00xx\<close>, and every other code unit as it is. Arrays and
  objects keep their order; nothing is inserted besides the commas and colons.
\<close>

definition quote :: char where "quote = CHR 0x22"

definition backslash :: char where "backslash = CHR 0x5C"

definition digitChar :: "nat \<Rightarrow> char" where
  "digitChar n = char_of (48 + n)"

definition hexDigit :: "nat \<Rightarrow> char" where
  "hexDigit n = (if n < 10 then char_of (48 + n) else char_of (87 + n))"

definition escapeChar :: "char \<Rightarrow> string" where
  "escapeChar c =
     (if c = quote then [backslash, quote]
      else if c = backslash then [backslash, backslash]
      else if c = CHR 0x08 then [backslash, CHR ''b'']
      else if c = CHR 0x09 then [backslash, CHR ''t'']
      else if c = CHR 0x0A then [backslash, CHR ''n'']
      else if c = CHR 0x0C then [backslash, CHR ''f'']
      else if c = CHR 0x0D then [backslash, CHR ''r'']
      else if (of_char c :: nat) < 32 then
        [backslash, CHR ''u'', CHR ''0'', CHR ''0'',
         hexDigit (of_char c div 16), hexDigit (of_char c mod 16)]
      else [c])"

definition quoteJSONString :: "string \<Rightarrow> string" where
  "quoteJSONString s = quote # concat (map escapeChar s) @ [quote]"

fun showNat :: "nat \<Rightarrow> string" where
  "showNat n = (if n < 10 then [digitChar n] else showNat (n div 10) @ [digitChar (n mod 10)])"

declare showNat.simps [simp del]

definition showInt :: "int \<Rightarrow> string" where
  "showInt i = (if i < 0 then CHR ''-'' # showNat (nat (- i)) else showNat (nat i))"

fun commaJoin :: "string list \<Rightarrow> string" where
  "commaJoin [] = []"
| "commaJoin [s] = s"
| "commaJoin (s # t # ss) = s @ CHR '','' # commaJoin (t # ss)"

fun stringifyValue :: "json \<Rightarrow> string" where
  "stringifyValue JNull = ''null''"
| "stringifyValue (JBool b) = (if b then ''true'' else ''false'')"
| "stringifyValue (JNumber n) = showInt n"
| "stringifyValue (JString s) = quoteJSONString s"
| "stringifyValue (JArray vs) = ''['' @ commaJoin (map stringifyValue vs) @ '']''"
| "stringifyValue (JObject kvs) =
     ''{'' @ commaJoin (map (\<lambda>kv. quoteJSONString (fst kv) @ '':'' @ stringifyValue (snd kv)) kvs)
       @ ''}''"

definition JSON_stringify :: "'p jsvalue \<Rightarrow> string" where
  "JSON_stringify v = stringifyValue (fieldsOf v)"

subsection \<open>\<^verbatim>\<open>JSON.parse\<close>\<close>

text \<open>
  Modelled from the spec: the parser of the JSON grammar. White space is allowed
  around every token, a string may hold any escape of the grammar, a numeral has no
  leading zero, a key given twice keeps its place and takes the later value. Every
  function returns what it read and the text that is left, or \<open>None\<close> where the
  text is not JSON. The three functions on values recurse on a counter, which
  \<open>parseText\<close> starts above the length of the text.
\<close>

definition isDigit :: "char \<Rightarrow> bool" where
  "isDigit c = (48 \<le> (of_char c :: nat) \<and> (of_char c :: nat) \<le> 57)"

definition digitVal :: "char \<Rightarrow> nat" where
  "digitVal c = of_char c - 48"

definition hexVal :: "char \<Rightarrow> nat option" where
  "hexVal c =
     (let n = (of_char c :: nat) in
      if 48 \<le> n \<and> n \<le> 57 then Some (n - 48)
      else if 97 \<le> n \<and> n \<le> 102 then Some (n - 87)
      else if 65 \<le> n \<and> n \<le> 70 then Some (n - 55)
      else None)"

definition unescape :: "char \<Rightarrow> char option" where
  "unescape e =
     (if e = quote then Some quote
      else if e = backslash then Some backslash
      else if e = CHR ''/'' then Some (CHR ''/'')
      else if e = CHR ''b'' then Some (CHR 0x08)
      else if e = CHR ''t'' then Some (CHR 0x09)
      else if e = CHR ''n'' then Some (CHR 0x0A)
      else if e = CHR ''f'' then Some (CHR 0x0C)
      else if e = CHR ''r'' then Some (CHR 0x0D)
      else None)"

definition hex4 :: "char \<Rightarrow> char \<Rightarrow> char \<Rightarrow> char \<Rightarrow> nat option" where
  "hex4 a b c d =
     (case (hexVal a, hexVal b, hexVal c, hexVal d) of
        (Some x, Some y, Some z, Some w) \<Rightarrow> Some (((x * 16 + y) * 16 + z) * 16 + w)
      | _ \<Rightarrow> None)"

definition consTo :: "char \<Rightarrow> (string \<times> string) option \<Rightarrow> (string \<times> string) option" where
  "consTo c r = (case r of None \<Rightarrow> None | Some (s, rest) \<Rightarrow> Some (c # s, rest))"

fun parseChars :: "string \<Rightarrow> (string \<times> string) option" where
  "parseChars [] = None"
| "parseChars (c # cs) =
     (if c = quote then Some ([], cs)
      else if c = backslash then
        (case cs of
           [] \<Rightarrow> None
         | e # cs1 \<Rightarrow>
             if e = CHR ''u'' then
               (case cs1 of
                  a # b # c' # d # cs2 \<Rightarrow>
                    (case hex4 a b c' d of
                       None \<Rightarrow> None
                     | Some n \<Rightarrow> if n < 256 then consTo (char_of n) (parseChars cs2) else None)
                | _ \<Rightarrow> None)
             else
               (case unescape e of
                  None \<Rightarrow> None
                | Some x \<Rightarrow> consTo x (parseChars cs1)))
      else if (of_char c :: nat) < 32 then None
      else consTo c (parseChars cs))"

definition natOfDigits :: "string \<Rightarrow> nat" where
  "natOfDigits ds = foldl (\<lambda>a c. 10 * a + digitVal c) 0 ds"

definition parseNumber :: "string \<Rightarrow> (int \<times> string) option" where
  "parseNumber s =
     (let negative = (s \<noteq> [] \<and> hd s = CHR ''-'');
          s1 = (if negative then tl s else s);
          ds = takeWhile isDigit s1;
          rest = dropWhile isDigit s1
      in if ds = [] then None
         else if hd ds = CHR ''0'' \<and> 1 < length ds then None
         else if rest \<noteq> [] \<and> (hd rest = CHR ''.'' \<or> hd rest = CHR ''e'' \<or> hd rest = CHR ''E'')
         then None
         else Some (if negative then - int (natOfDigits ds) else int (natOfDigits ds), rest))"

definition isWhitespace :: "char \<Rightarrow> bool" where
  "isWhitespace c = (c = CHR 0x20 \<or> c = CHR 0x09 \<or> c = CHR 0x0A \<or> c = CHR 0x0D)"

definition skipWhitespace :: "string \<Rightarrow> string" where
  "skipWhitespace s = dropWhile isWhitespace s"

fun defineProperty :: "string \<Rightarrow> json \<Rightarrow> (string \<times> json) list \<Rightarrow> (string \<times> json) list" where
  "defineProperty k v [] = [(k, v)]"
| "defineProperty k v (p # ps) = (if fst p = k then (k, v) # ps else p # defineProperty k v ps)"

definition objectOf :: "(string \<times> json) list \<Rightarrow> json" where
  "objectOf members = JObject (foldl (\<lambda>props kv. defineProperty (fst kv) (snd kv) props) [] members)"

definition parseLiteral :: "string \<Rightarrow> json \<Rightarrow> string \<Rightarrow> (json \<times> string) option" where
  "parseLiteral word v s =
     (if take (length word) s = word then Some (v, drop (length word) s) else None)"

fun parseValue :: "nat \<Rightarrow> string \<Rightarrow> (json \<times> string) option"
  and parseElements :: "nat \<Rightarrow> string \<Rightarrow> (json list \<times> string) option"
  and parseMembers :: "nat \<Rightarrow> string \<Rightarrow> ((string \<times> json) list \<times> string) option"
where
  "parseValue 0 s = None"
| "parseValue (Suc n) s =
     (case s of
        [] \<Rightarrow> None
      | c # cs \<Rightarrow>
          if c = CHR ''n'' then parseLiteral ''null'' JNull s
          else if c = CHR ''t'' then parseLiteral ''true'' (JBool True) s
          else if c = CHR ''f'' then parseLiteral ''false'' (JBool False) s
          else if c = quote then
            (case parseChars cs of None \<Rightarrow> None | Some (str, rest) \<Rightarrow> Some (JString str, rest))
          else if c = CHR ''['' then
            (case skipWhitespace cs of
               [] \<Rightarrow> None
             | d # ds \<Rightarrow>
                 if d = CHR '']'' then Some (JArray [], ds)
                 else (case parseElements n (d # ds) of
                         None \<Rightarrow> None
                       | Some (vs, rest) \<Rightarrow> Some (JArray vs, rest)))
          else if c = CHR ''{'' then
            (case skipWhitespace cs of
               [] \<Rightarrow> None
             | d # ds \<Rightarrow>
                 if d = CHR ''}'' then Some (JObject [], ds)
                 else (case parseMembers n (d # ds) of
                         None \<Rightarrow> None
                       | Some (ms, rest) \<Rightarrow> Some (objectOf ms, rest)))
          else (case parseNumber s of
                  None \<Rightarrow> None
                | Some (i, rest) \<Rightarrow> Some (JNumber i, rest)))"
| "parseElements 0 s = None"
| "parseElements (Suc n) s =
     (case parseValue n s of
        None \<Rightarrow> None
      | Some (v, rest) \<Rightarrow>
          (case skipWhitespace rest of
             [] \<Rightarrow> None
           | c # cs \<Rightarrow>
               if c = CHR '','' then
                 (case parseElements n (skipWhitespace cs) of
                    None \<Rightarrow> None
                  | Some (vs, rest') \<Rightarrow> Some (v # vs, rest'))
               else if c = CHR '']'' then Some ([v], cs)
               else None))"
| "parseMembers 0 s = None"
| "parseMembers (Suc n) s =
     (case s of
        [] \<Rightarrow> None
      | q # s1 \<Rightarrow>
          if q \<noteq> quote then None
          else
            (case parseChars s1 of
               None \<Rightarrow> None
             | Some (k, s2) \<Rightarrow>
                 (case skipWhitespace s2 of
                    [] \<Rightarrow> None
                  | c # s3 \<Rightarrow>
                      if c \<noteq> CHR '':'' then None
                      else
                        (case parseValue n (skipWhitespace s3) of
                           None \<Rightarrow> None
                         | Some (v, s4) \<Rightarrow>
                             (case skipWhitespace s4 of
                                [] \<Rightarrow> None
                              | d # s5 \<Rightarrow>
                                  if d = CHR '','' then
                                    (case parseMembers n (skipWhitespace s5) of
                                       None \<Rightarrow> None
                                     | Some (ms, rest) \<Rightarrow> Some ((k, v) # ms, rest))
                                  else if d = CHR ''}'' then Some ([(k, v)], s5)
                                  else None)))))"

definition parseText :: "string \<Rightarrow> json option" where
  "parseText text =
     (case parseValue (Suc (length text)) (skipWhitespace text) of
        None \<Rightarrow> None
      | Some (v, rest) \<Rightarrow> if skipWhitespace rest = [] then Some v else None)"

definition JSON_parse :: "string \<Rightarrow> exception + 'p jsvalue" where
  "JSON_parse text =
     (case parseText text of
        None \<Rightarrow> Inl SyntaxError
      | Some d \<Rightarrow> Inr (JSValue None d))"

subsection \<open>\<^verbatim>\<open>Object.setPrototypeOf\<close>\<close>

text \<open>
  Modelled from the spec: attaching a prototype. On \<^verbatim>\<open>null\<close> the built-in throws a
  \<^verbatim>\<open>TypeError\<close>; a primitive is returned as it is; an array or an object gets the
  prototype and keeps its fields.
\<close>

definition setPrototypeOf :: "'p jsvalue \<Rightarrow> 'p \<Rightarrow> exception + 'p jsvalue" where
  "setPrototypeOf obj proto =
     (case fieldsOf obj of
        JNull \<Rightarrow> Inl TypeError
      | JArray vs \<Rightarrow> Inr (JSValue (Some proto) (fieldsOf obj))
      | JObject kvs \<Rightarrow> Inr (JSValue (Some proto) (fieldsOf obj))
      | _ \<Rightarrow> Inr obj)"

subsection \<open>\<^verbatim>\<open>getJSON\<close> and \<^verbatim>\<open>fromJSON\<close>\<close>

text \<open>
  The two functions of the sources. \<^verbatim>\<open>fromJSON\<close> parses, sets the prototype of
  the parsed value in place and returns that value; an exception of either step
  ends it.
\<close>

definition getJSON :: "'p jsvalue \<Rightarrow> string" where
  "getJSON obj = JSON_stringify obj"

definition fromJSON :: "'p \<Rightarrow> string \<Rightarrow> exception + 'p jsvalue" where
  "fromJSON proto json =
     (case JSON_parse json of
        Inl e \<Rightarrow> Inl e
      | Inr obj \<Rightarrow>
          (case setPrototypeOf obj proto of
             Inl e \<Rightarrow> Inl e
           | Inr obj' \<Rightarrow> Inr obj'))"

text \<open>Names used in the statements: what the parser accepts after a numeral, and
  the text of one member of an object.\<close>

definition delimited :: "string \<Rightarrow> bool" where
  "delimited rest =
     (rest = [] \<or> hd rest = CHR '','' \<or> hd rest = CHR '']'' \<or> hd rest = CHR ''}'')"

definition memberText :: "string \<times> json \<Rightarrow> string" where
  "memberText kv = quoteJSONString (fst kv) @ '':'' @ stringifyValue (snd kv)"


section \<open>Properties\<close>

subsection \<open>The methods in closed form\<close>

lemma rank_simps [simp]:
  "rank ElementK = 0" "rank IdK = 1" "rank ClassK = 2"
  "rank AttributeK = 3" "rank PseudoClassK = 4" "rank PseudoElementK = 5"
  by (simp_all add: rank_def weight_def indexOf_def)

lemma error_eq: "error msg this = (Inl (Error msg), cssSelectorBuilder)"
  by (simp add: error_def clear_def cssSelectorBuilder_def)

lemma stringify_eq: "stringify this = (concat (build this), cssSelectorBuilder)"
  by (simp add: stringify_def clear_def cssSelectorBuilder_def)

lemma inOrder_weightArg:
  "inOrder (weightArg k) this =
     (if order this \<noteq> [] \<and> rank k < last (order this)
      then (Inl (Error orderMessage), cssSelectorBuilder)
      else (Inr (), this\<lparr>order := order this @ [rank k]\<rparr>))"
  by (simp add: inOrder_def rank_def error_eq orderMessage_def Let_def)

lemma inOrder_weight:
  "inOrder (weight ! 0) = inOrder (weightArg ElementK)"
  "inOrder (weight ! Suc 0) = inOrder (weightArg IdK)"
  "inOrder (weight ! 2) = inOrder (weightArg ClassK)"
  "inOrder (weight ! 3) = inOrder (weightArg AttributeK)"
  "inOrder (weight ! 4) = inOrder (weightArg PseudoClassK)"
  "inOrder (weight ! 5) = inOrder (weightArg PseudoElementK)"
  by simp_all

lemma fragment_eq:
  "k \<noteq> ElementK \<Longrightarrow> fragment k v this =
     (if flagged k this then (Inl (Error duplicateMessage), cssSelectorBuilder)
      else if order this \<noteq> [] \<and> rank k < last (order this)
      then (Inl (Error orderMessage), cssSelectorBuilder)
      else (Inr (), setFlag k (this\<lparr>order := order this @ [rank k],
                                      build := build this @ [fragmentText (k, v)]\<rparr>)))"
  by (cases k)
     (simp_all add: id_sel_def class_sel_def attr_def pseudoClass_def pseudoElement_def
        andThen_def inOrder_weight inOrder_weightArg error_eq duplicateMessage_def
        del: weightArg.simps)

lemma element_eq:
  "element v this =
     (if length (build this) = 1 then (Inl (Error duplicateMessage), cssSelectorBuilder)
      else if build this = [] then
        (if order this \<noteq> [] \<and> 0 < last (order this)
         then (Inl (Error orderMessage), cssSelectorBuilder)
         else (Inr (), this\<lparr>order := order this @ [0], build := [v]\<rparr>))
      else (Inr (), \<lparr>idCheck = False, pseudoElementCheck = False, order = [0],
                      combo = combo this @ [concat (build this)], build = [v]\<rparr>))"
  by (cases "build this")
     (auto simp add: element_def andThen_def inOrder_weight inOrder_weightArg error_eq
        duplicateMessage_def simp del: weightArg.simps)


lemma fragment_element: "fragment ElementK v this = element v this"
  by simp

declare fragment.simps [simp del]

subsection \<open>What every sequence of calls preserves\<close>

lemma consistent_fresh: "consistent cssSelectorBuilder"
  by (simp add: consistent_def cssSelectorBuilder_def)

lemma sorted_le_last: "sorted xs \<Longrightarrow> x \<in> set xs \<Longrightarrow> x \<le> last (xs::int list)"
  by (induction xs) auto

lemma sorted_snoc_iff: "sorted (xs @ [p]) \<longleftrightarrow> sorted xs \<and> (xs = [] \<or> last xs \<le> (p::int))"
proof (cases "xs = []")
  case True then show ?thesis by simp
next
  case False
  then show ?thesis
    using sorted_le_last [of xs] by (auto simp add: sorted_append intro: order_trans)
qed

lemma consistent_element: "consistent this \<Longrightarrow> consistent (snd (element v this))"
  by (simp add: element_eq consistent_def cssSelectorBuilder_def sorted_snoc_iff)


lemma consistent_other:
  assumes "k \<noteq> ElementK" "consistent this"
  shows "consistent (snd (fragment k v this))"
proof (cases "flagged k this \<or> (order this \<noteq> [] \<and> rank k < last (order this))")
  case True
  then show ?thesis using assms(1) by (auto simp add: fragment_eq consistent_fresh)
next
  case False
  then have eq: "snd (fragment k v this) =
      setFlag k (this\<lparr>order := order this @ [rank k],
                     build := build this @ [fragmentText (k, v)]\<rparr>)"
    using assms(1) by (auto simp add: fragment_eq)
  show ?thesis unfolding eq using assms False
    by (cases k) (auto simp add: consistent_def sorted_snoc_iff count_list_0_iff)
qed

lemma consistent_fragment: "consistent this \<Longrightarrow> consistent (snd (fragment k v this))"
  using consistent_element consistent_other
  by (cases "k = ElementK") (simp_all add: fragment_element)


lemma snd_invoke: "snd (invoke r m h) = h(r := snd (m (h r)))"
  by (simp add: invoke_def split: prod.splits)

lemma fst_invoke: "fst (invoke r m h) = fst (m (h r))"
  by (simp add: invoke_def split: prod.splits)

lemma combine_unchanged:
  "idCheck (snd (combine t s1 c s2 h) r) = idCheck (h r)"
  "pseudoElementCheck (snd (combine t s1 c s2 h) r) = pseudoElementCheck (h r)"
  "order (snd (combine t s1 c s2 h) r) = order (h r)"
  by (simp_all add: combine_def Let_def split: prod.splits)

lemma combine_build:
  "build (snd (combine t s1 c s2 h) r) =
     (if r = t then [toString (fst (pop (combo (h s2)))) @ '' '' @ c @ '' '' @
                      concat (build (h s1))]
      else build (h r))"
  by (simp add: combine_def Let_def split: prod.splits)

lemma combine_combo:
  "combo (snd (combine t s1 c s2 h) r) =
     (if r = s2 then snd (pop (combo (h s2))) else combo (h r))"
  by (simp add: combine_def Let_def split: prod.splits)

lemma consistent_combine:
  "consistent (h r) \<Longrightarrow> consistent (snd (combine t s1 c s2 h) r)"
  by (simp add: consistent_def combine_unchanged combine_build)

lemma consistent_exec:
  "(\<And>r. consistent (h r)) \<Longrightarrow> consistent (exec a h r)"
  by (cases a)
     (simp_all add: snd_invoke consistent_fragment consistent_combine stringify_eq
        consistent_fresh)

lemma consistent_execAll:
  "(\<And>r. consistent (h r)) \<Longrightarrow> consistent (execAll as h r)"
  by (induction as arbitrary: h r) (simp_all add: consistent_exec)

lemma consistent_reachable: "consistent (execAll as freshHeap r)"
  by (rule consistent_execAll) (simp add: freshHeap_def consistent_fresh)

subsection \<open>Rendering\<close>

text \<open>
  C5. On the empty builder \<open>stringify\<close> returns the empty string. On every builder
  the call returns the concatenation of the accumulated fragments and leaves the
  empty builder behind, so that a second call right after it returns the empty
  string.
\<close>

theorem stringify_destructive_read:
  "fst (stringify cssSelectorBuilder) = []
   \<and> fst (stringify this) = concat (build this)
   \<and> snd (stringify this) = cssSelectorBuilder
   \<and> fst (stringify (snd (stringify this))) = []"
  by (simp add: stringify_eq) (simp add: cssSelectorBuilder_def)


subsection \<open>Ordering of fragments\<close>

lemmas method_of_kind = fragment.simps [symmetric]

lemma raises_clears:
  "isl (fst (fragment k v this)) \<Longrightarrow> snd (fragment k v this) = cssSelectorBuilder"
proof (cases "k = ElementK")
  case True
  assume "isl (fst (fragment k v this))"
  then show ?thesis using True
    by (auto simp add: fragment_element element_eq split: if_splits)
next
  case False
  assume "isl (fst (fragment k v this))"
  then show ?thesis using False by (simp add: fragment_eq split: if_splits)
qed

lemma lower_rank_raises:
  "k \<noteq> ElementK \<Longrightarrow> order this \<noteq> [] \<Longrightarrow> rank k < last (order this) \<Longrightarrow>
     isl (fst (fragment k v this))"
  by (simp add: fragment_eq)

lemma accepted_rank:
  "k \<noteq> ElementK \<Longrightarrow> fst (fragment k v this) = Inr () \<Longrightarrow>
     order (snd (fragment k v this)) = order this @ [rank k]
     \<and> flagged k (snd (fragment k v this)) = (k = IdK \<or> k = PseudoElementK)"
  by (cases k) (auto simp add: fragment_eq split: if_splits)

lemma element_raises:
  "isl (fst (element v this)) \<longleftrightarrow>
     length (build this) = 1 \<or> (build this = [] \<and> order this \<noteq> [] \<and> 0 < last (order this))"
  by (auto simp add: element_eq)

lemma element_archives:
  "2 \<le> length (build this) \<Longrightarrow>
     element v this =
       (Inr (), \<lparr>idCheck = False, pseudoElementCheck = False, order = [0],
                  combo = combo this @ [concat (build this)], build = [v]\<rparr>)"
  by (auto simp add: element_eq)

text \<open>
  C1, as stated, fails: after \<^verbatim>\<open>element('a').id('b')\<close> the last accepted fragment
  has rank 1, and \<^verbatim>\<open>element('c')\<close>, of rank 0, is accepted. The builder holds two
  fragments, so \<open>element\<close> archives them in \<open>combo\<close> and starts a new simple selector
  instead of checking the rank.
\<close>

theorem element_after_id_accepted:
  "fst (appendAll [(ElementK, ''a''), (IdK, ''b'')] cssSelectorBuilder) = Inr ()
   \<and> rank ElementK
       < last (order (snd (appendAll [(ElementK, ''a''), (IdK, ''b'')] cssSelectorBuilder)))
   \<and> fst (element ''c'' (snd (appendAll [(ElementK, ''a''), (IdK, ''b'')] cssSelectorBuilder)))
       = Inr ()"
  by (simp add: andThen_def fragment_eq fragment_element element_eq cssSelectorBuilder_def)

text \<open>
  C1, amended. Appending a fragment whose rank is lower than the last rank recorded
  for the current simple selector raises an error, whatever the builder's state,
  except for \<open>element\<close> on a builder that holds two or more fragments: that call
  is accepted. After every sequence of calls from the fresh builders, the ranks
  recorded for the current simple selector of every builder are in non-decreasing
  order. In particular an id right after an accepted class raises.
\<close>

theorem fragments_in_rank_order:
  "(order this \<noteq> [] \<and> rank k < last (order this)
      \<and> (k = ElementK \<longrightarrow> length (build this) < 2) \<longrightarrow>
      isl (fst (fragment k v this)))
   \<and> (2 \<le> length (build this) \<longrightarrow> fst (element v this) = Inr ())
   \<and> sorted (order (execAll acts freshHeap r))
   \<and> (fst (class_sel v this) = Inr () \<longrightarrow> isl (fst (id_sel w (snd (class_sel v this)))))"
proof -
  have "isl (fst (fragment k v this))"
    if "order this \<noteq> []" "rank k < last (order this)"
      "k = ElementK \<longrightarrow> length (build this) < 2"
  proof (cases "k = ElementK")
    case True
    then have "length (build this) = 1 \<or> build this = []"
      using that(3) by (cases "build this") auto
    then show ?thesis using True that(1,2) by (auto simp add: fragment_element element_raises)
  next
    case False
    then show ?thesis using that(1,2) by (rule lower_rank_raises)
  qed
  moreover have "sorted (order (execAll acts freshHeap r))"
    using consistent_reachable [of acts r] by (simp add: consistent_def)
  moreover have "isl (fst (id_sel w (snd (class_sel v this))))"
    if "fst (class_sel v this) = Inr ()"
    using that accepted_rank [of ClassK v this]
      lower_rank_raises [of IdK "snd (class_sel v this)" w]
    by (simp add: method_of_kind)
  ultimately show ?thesis using element_archives [of this v] by auto
qed

theorem fragments_in_rank_order_witness:
  "fst (class_sel ''x'' cssSelectorBuilder) = Inr ()
   \<and> isl (fst (id_sel ''y'' (snd (class_sel ''x'' cssSelectorBuilder))))
   \<and> rank IdK < last (order (snd (class_sel ''x'' cssSelectorBuilder)))
   \<and> isl (fst (fragment IdK ''z'' (snd (class_sel ''x'' cssSelectorBuilder))))
   \<and> rank ElementK < last (order (snd (id_sel ''x'' cssSelectorBuilder)))
   \<and> length (build (snd (id_sel ''x'' cssSelectorBuilder))) < 2
   \<and> isl (fst (fragment ElementK ''z'' (snd (id_sel ''x'' cssSelectorBuilder))))
   \<and> 2 \<le> length (build (snd (appendAll [(ElementK, ''a''), (IdK, ''b'')] cssSelectorBuilder)))
   \<and> fst (element ''c'' (snd (appendAll [(ElementK, ''a''), (IdK, ''b'')] cssSelectorBuilder))) = Inr ()
   \<and> sorted (order (execAll [Append 0 ClassK ''x'', Append 0 AttributeK ''y''] freshHeap 0))"
proof -
  have a: "fst (class_sel ''x'' cssSelectorBuilder) = Inr ()"
    by (simp add: method_of_kind fragment_eq cssSelectorBuilder_def)
  have b: "order (snd (class_sel ''x'' cssSelectorBuilder)) \<noteq> []
      \<and> rank IdK < last (order (snd (class_sel ''x'' cssSelectorBuilder)))
      \<and> (IdK = ElementK \<longrightarrow> length (build (snd (class_sel ''x'' cssSelectorBuilder))) < 2)"
    by (simp add: method_of_kind fragment_eq cssSelectorBuilder_def)
  have c: "order (snd (id_sel ''x'' cssSelectorBuilder)) \<noteq> []
      \<and> rank ElementK < last (order (snd (id_sel ''x'' cssSelectorBuilder)))
      \<and> length (build (snd (id_sel ''x'' cssSelectorBuilder))) < 2"
    by (simp add: method_of_kind fragment_eq cssSelectorBuilder_def)
  have d: "2 \<le> length (build (snd (appendAll [(ElementK, ''a''), (IdK, ''b'')] cssSelectorBuilder)))"
    by (simp add: andThen_def fragment_eq fragment_element element_eq cssSelectorBuilder_def)
  show ?thesis
    using a b c d
      fragments_in_rank_order [where k = IdK and this = "snd (class_sel ''x'' cssSelectorBuilder)"
        and v = "''z''" and acts = "[Append 0 ClassK ''x'', Append 0 AttributeK ''y'']" and r = 0]
      fragments_in_rank_order [where k = ElementK and this = "snd (id_sel ''x'' cssSelectorBuilder)"
        and v = "''z''"]
      fragments_in_rank_order [where this = "snd (appendAll [(ElementK, ''a''), (IdK, ''b'')] cssSelectorBuilder)"
        and v = "''c''"]
      fragments_in_rank_order [where this = cssSelectorBuilder and v = "''x''" and w = "''y''"]
    by blast
qed

subsection \<open>Reset on failure\<close>

text \<open>
  C4. Whenever a fragment method raises, the builder it leaves behind is the empty
  one, so the next fragment call and the next \<open>stringify\<close> behave as on a fresh
  builder.
\<close>

theorem error_clears_builder:
  "fst (fragment k v this) = Inl e \<Longrightarrow>
     snd (fragment k v this) = cssSelectorBuilder
     \<and> fragment k' v' (snd (fragment k v this)) = fragment k' v' cssSelectorBuilder
     \<and> stringify (snd (fragment k v this)) = ([], cssSelectorBuilder)"
proof -
  assume raised: "fst (fragment k v this) = Inl e"
  then have "snd (fragment k v this) = cssSelectorBuilder"
    by (simp add: raises_clears)
  then show ?thesis by (simp add: stringify_eq) (simp add: cssSelectorBuilder_def)
qed

theorem error_clears_builder_witness:
  "fst (fragment IdK ''y'' (snd (fragment IdK ''x'' cssSelectorBuilder)))
     = Inl (Error duplicateMessage)
   \<and> snd (fragment IdK ''y'' (snd (fragment IdK ''x'' cssSelectorBuilder)))
     = cssSelectorBuilder"
proof -
  have r: "fst (fragment IdK ''y'' (snd (fragment IdK ''x'' cssSelectorBuilder)))
      = Inl (Error duplicateMessage)"
    by (simp add: fragment_eq cssSelectorBuilder_def)
  from error_clears_builder [OF r] r show ?thesis by simp
qed


subsection \<open>Chains of fragment calls\<close>

lemma appendAll_Cons:
  "appendAll ((k, v) # fs) this =
     (case fragment k v this of (Inl e, this') \<Rightarrow> (Inl e, this') | (Inr _, this') \<Rightarrow> appendAll fs this')"
  by (simp add: andThen_def)

lemma appendAll_tail:
  "ElementK \<notin> fst ` set fs \<Longrightarrow>
   sorted (order this @ map (\<lambda>f. rank (fst f)) fs) \<Longrightarrow>
   (idCheck this \<longrightarrow> IdK \<notin> fst ` set fs) \<Longrightarrow>
   (pseudoElementCheck this \<longrightarrow> PseudoElementK \<notin> fst ` set fs) \<Longrightarrow>
   count_list (map fst fs) IdK \<le> 1 \<Longrightarrow>
   count_list (map fst fs) PseudoElementK \<le> 1 \<Longrightarrow>
     fst (appendAll fs this) = Inr ()
     \<and> build (snd (appendAll fs this)) = build this @ map fragmentText fs
     \<and> combo (snd (appendAll fs this)) = combo this
     \<and> order (snd (appendAll fs this)) = order this @ map (\<lambda>f. rank (fst f)) fs"
proof (induction fs arbitrary: this)
  case Nil
  then show ?case by simp
next
  case (Cons f fs)
  obtain k v where f: "f = (k, v)" by (cases f)
  let ?next = "setFlag k (this\<lparr>order := order this @ [rank k],
                                 build := build this @ [fragmentText (k, v)]\<rparr>)"
  have k: "k \<noteq> ElementK" using Cons.prems(1) f by auto
  have nf: "\<not> flagged k this" using Cons.prems(3,4) f by (cases k) auto
  have "order this \<noteq> [] \<Longrightarrow> last (order this) \<le> rank k"
    using Cons.prems(2) f by (auto simp add: sorted_append)
  then have step: "fragment k v this = (Inr (), ?next)"
    using k nf by (auto simp add: fragment_eq)
  have o: "order ?next = order this @ [rank k]" by (cases k) simp_all
  have b: "build ?next = build this @ [fragmentText (k, v)]" by (cases k) simp_all
  have c: "combo ?next = combo this" by (cases k) simp_all
  have i: "idCheck ?next = (idCheck this \<or> k = IdK)" by (cases k) simp_all
  have p: "pseudoElementCheck ?next = (pseudoElementCheck this \<or> k = PseudoElementK)"
    by (cases k) simp_all
  have "fst (appendAll fs ?next) = Inr ()
     \<and> build (snd (appendAll fs ?next)) = build ?next @ map fragmentText fs
     \<and> combo (snd (appendAll fs ?next)) = combo ?next
     \<and> order (snd (appendAll fs ?next)) = order ?next @ map (\<lambda>f. rank (fst f)) fs"
  proof (rule Cons.IH)
    show "ElementK \<notin> fst ` set fs" using Cons.prems(1) by simp
    show "sorted (order ?next @ map (\<lambda>f. rank (fst f)) fs)"
      using Cons.prems(2) f by (simp add: o)
    show "idCheck ?next \<longrightarrow> IdK \<notin> fst ` set fs"
      using Cons.prems(3,5) f by (auto simp add: i count_list_0_iff split: if_splits)
    show "pseudoElementCheck ?next \<longrightarrow> PseudoElementK \<notin> fst ` set fs"
      using Cons.prems(4,6) f by (auto simp add: p count_list_0_iff split: if_splits)
    show "count_list (map fst fs) IdK \<le> 1"
      using Cons.prems(5) by (simp split: if_splits)
    show "count_list (map fst fs) PseudoElementK \<le> 1"
      using Cons.prems(6) by (simp split: if_splits)
  qed
  then show ?case
    unfolding f appendAll_Cons step by (simp add: o b c)
qed

lemma rank_nonneg: "0 \<le> rank k" "rank k = 0 \<longleftrightarrow> k = ElementK"
  by (cases k; simp)+

lemma wellFormed_tail:
  assumes "wellFormed ((k, v) # fs)"
  shows "ElementK \<notin> fst ` set fs"
proof
  assume "ElementK \<in> fst ` set fs"
  then obtain w where w: "(ElementK, w) \<in> set fs" by force
  then have "rank k \<le> rank ElementK"
    using assms by (force simp add: wellFormed_def)
  then have "k = ElementK" using rank_nonneg [of k] by simp
  moreover have "ElementK \<in> set (map fst fs)"
    using w by force
  then have "count_list (map fst fs) ElementK \<noteq> 0"
    by (simp only: count_list_0_iff not_not)
  ultimately show False using assms by (simp add: wellFormed_def)
qed

lemma appendAll_fresh:
  assumes "wellFormed fs"
  shows "fst (appendAll fs cssSelectorBuilder) = Inr ()
     \<and> build (snd (appendAll fs cssSelectorBuilder)) = map fragmentText fs
     \<and> combo (snd (appendAll fs cssSelectorBuilder)) = []"
proof (cases fs)
  case Nil
  then show ?thesis by (simp add: cssSelectorBuilder_def)
next
  case (Cons f fs')
  obtain k v where f: "f = (k, v)" by (cases f)
  have wf: "wellFormed ((k, v) # fs')" using assms Cons f by simp
  have tl: "ElementK \<notin> fst ` set fs'" using wellFormed_tail [OF wf] .
  show ?thesis
  proof (cases "k = ElementK")
    case True
    let ?s = "\<lparr>idCheck = False, pseudoElementCheck = False, order = [0], combo = [],
               build = [v]\<rparr>"
    have step: "fragment k v cssSelectorBuilder = (Inr (), ?s)"
      using True by (simp add: fragment_element element_eq cssSelectorBuilder_def)
    have "fst (appendAll fs' ?s) = Inr ()
       \<and> build (snd (appendAll fs' ?s)) = build ?s @ map fragmentText fs'
       \<and> combo (snd (appendAll fs' ?s)) = combo ?s
       \<and> order (snd (appendAll fs' ?s)) = order ?s @ map (\<lambda>f. rank (fst f)) fs'"
      using wf tl True by (intro appendAll_tail) (simp_all add: wellFormed_def)
    then show ?thesis
      unfolding Cons f appendAll_Cons step using True by simp
  next
    case False
    have "fst (appendAll fs cssSelectorBuilder) = Inr ()
       \<and> build (snd (appendAll fs cssSelectorBuilder)) = build cssSelectorBuilder @ map fragmentText fs
       \<and> combo (snd (appendAll fs cssSelectorBuilder)) = combo cssSelectorBuilder
       \<and> order (snd (appendAll fs cssSelectorBuilder)) = order cssSelectorBuilder @ map (\<lambda>f. rank (fst f)) fs"
      using wf tl False unfolding Cons f
      by (intro appendAll_tail) (simp_all add: wellFormed_def cssSelectorBuilder_def)
    then show ?thesis by (simp add: cssSelectorBuilder_def)
  qed
qed

lemma appendAll_archiving:
  assumes "wellFormed ((ElementK, v) # fs)" "2 \<le> length (build this)"
  shows "fst (appendAll ((ElementK, v) # fs) this) = Inr ()
     \<and> build (snd (appendAll ((ElementK, v) # fs) this)) = map fragmentText ((ElementK, v) # fs)
     \<and> combo (snd (appendAll ((ElementK, v) # fs) this)) = combo this @ [concat (build this)]"
proof -
  let ?s = "\<lparr>idCheck = False, pseudoElementCheck = False, order = [0],
             combo = combo this @ [concat (build this)], build = [v]\<rparr>"
  have ne: "build this \<noteq> []" "length (build this) \<noteq> 1" using assms(2) by auto
  have step: "fragment ElementK v this = (Inr (), ?s)"
    using ne by (simp add: fragment_element element_eq)
  have tl: "ElementK \<notin> fst ` set fs" using wellFormed_tail [OF assms(1)] .
  have "fst (appendAll fs ?s) = Inr ()
     \<and> build (snd (appendAll fs ?s)) = build ?s @ map fragmentText fs
     \<and> combo (snd (appendAll fs ?s)) = combo ?s
     \<and> order (snd (appendAll fs ?s)) = order ?s @ map (\<lambda>f. rank (fst f)) fs"
    using assms(1) tl by (intro appendAll_tail) (simp_all add: wellFormed_def)
  then show ?thesis
    unfolding appendAll_Cons step by simp
qed


subsection \<open>Uniqueness of id and pseudo-element\<close>

text \<open>
  C2. A builder holds an id fragment when the ranks recorded for its current simple
  selector contain the rank of id, and likewise for pseudo-element. After every
  sequence of calls from the fresh builders, on every builder: if it holds an id
  fragment then \<open>id\<close> raises, if it holds a pseudo-element fragment then
  \<open>pseudoElement\<close> raises, and the recorded ranks hold at most one id and at most
  one pseudo-element. On every builder state, a second \<open>id\<close> right after an
  accepted one raises, and so does a second \<open>pseudoElement\<close>.
\<close>

theorem id_and_pseudoElement_unique:
  "(rank IdK \<in> set (order (execAll acts freshHeap r)) \<longrightarrow>
      isl (fst (id_sel v (execAll acts freshHeap r))))
   \<and> (rank PseudoElementK \<in> set (order (execAll acts freshHeap r)) \<longrightarrow>
      isl (fst (pseudoElement v (execAll acts freshHeap r))))
   \<and> count_list (order (execAll acts freshHeap r)) (rank IdK) \<le> 1
   \<and> count_list (order (execAll acts freshHeap r)) (rank PseudoElementK) \<le> 1
   \<and> (fst (id_sel v this) = Inr () \<longrightarrow> isl (fst (id_sel w (snd (id_sel v this)))))
   \<and> (fst (pseudoElement v this) = Inr () \<longrightarrow>
      isl (fst (pseudoElement w (snd (pseudoElement v this)))))"
proof -
  have c: "consistent (execAll acts freshHeap r)"
    by (rule consistent_reachable)
  have "isl (fst (fragment IdK w (snd (fragment IdK v this))))"
    if "fst (fragment IdK v this) = Inr ()"
    using accepted_rank [of IdK v this] that by (simp add: fragment_eq)
  moreover have "isl (fst (fragment PseudoElementK w (snd (fragment PseudoElementK v this))))"
    if "fst (fragment PseudoElementK v this) = Inr ()"
    using accepted_rank [of PseudoElementK v this] that by (simp add: fragment_eq)
  ultimately show ?thesis using c
    by (simp add: consistent_def method_of_kind fragment_eq)
qed

theorem id_and_pseudoElement_unique_witness:
  "rank IdK \<in> set (order (execAll [Append 0 ElementK ''div'', Append 0 IdK ''main'', Append 0 ClassK ''a''] freshHeap 0))
   \<and> isl (fst (id_sel ''other'' (execAll [Append 0 ElementK ''div'', Append 0 IdK ''main'', Append 0 ClassK ''a''] freshHeap 0)))
   \<and> rank PseudoElementK \<in> set (order (execAll [Append 0 PseudoElementK ''before''] freshHeap 0))
   \<and> isl (fst (pseudoElement ''after'' (execAll [Append 0 PseudoElementK ''before''] freshHeap 0)))"
proof -
  have a: "rank IdK \<in> set (order (execAll [Append 0 ElementK ''div'', Append 0 IdK ''main'', Append 0 ClassK ''a''] freshHeap 0))"
    by (simp add: snd_invoke freshHeap_def fragment_eq fragment_element element_eq cssSelectorBuilder_def)
  have b: "rank PseudoElementK \<in> set (order (execAll [Append 0 PseudoElementK ''before''] freshHeap 0))"
    by (simp add: snd_invoke freshHeap_def fragment_eq cssSelectorBuilder_def)
  show ?thesis
    using a b
      id_and_pseudoElement_unique [where acts = "[Append 0 ElementK ''div'', Append 0 IdK ''main'', Append 0 ClassK ''a'']" and r = 0 and v = "''other''"]
      id_and_pseudoElement_unique [where acts = "[Append 0 PseudoElementK ''before'']" and r = 0 and v = "''after''"]
    by blast
qed

subsection \<open>When \<open>element\<close> raises\<close>

text \<open>
  C3, as stated, fails: the builder built by \<^verbatim>\<open>element('div').id('main')\<close> holds
  an element fragment, and \<^verbatim>\<open>element('p')\<close> on it succeeds.
\<close>

theorem element_after_element_accepted:
  "build (snd (appendAll [(ElementK, ''div''), (IdK, ''main'')] cssSelectorBuilder)) = [''div'', ''#main'']
   \<and> rank ElementK \<in> set (order (snd (appendAll [(ElementK, ''div''), (IdK, ''main'')] cssSelectorBuilder)))
   \<and> fst (element ''p'' (snd (appendAll [(ElementK, ''div''), (IdK, ''main'')] cssSelectorBuilder))) = Inr ()"
  by (simp add: andThen_def fragment_eq fragment_element element_eq cssSelectorBuilder_def)

text \<open>
  C3, amended. \<open>element\<close> raises exactly when the builder holds exactly one
  fragment, or holds none while a rank above 0 is still recorded; after every
  sequence of calls from the fresh builders the second case does not occur, so
  there \<open>element\<close> raises exactly when the builder holds exactly one fragment. On
  a builder holding two or more fragments it succeeds: it archives their
  concatenation in \<open>combo\<close> and starts a new simple selector with the element.
\<close>

theorem element_raises_iff:
  "(isl (fst (element v this)) \<longleftrightarrow>
      length (build this) = 1 \<or> (build this = [] \<and> order this \<noteq> [] \<and> 0 < last (order this)))
   \<and> (isl (fst (element v (execAll acts freshHeap r))) \<longleftrightarrow>
      length (build (execAll acts freshHeap r)) = 1)
   \<and> (fst (element v this) = Inr () \<longleftrightarrow> \<not> isl (fst (element v this)))
   \<and> (2 \<le> length (build this) \<longrightarrow>
        combo (snd (element v this)) = combo this @ [concat (build this)]
        \<and> build (snd (element v this)) = [v]
        \<and> order (snd (element v this)) = [rank ElementK])"
proof -
  have "build (execAll acts freshHeap r) = [] \<longrightarrow> order (execAll acts freshHeap r) = []"
    using consistent_reachable [of acts r] by (simp add: consistent_def)
  then have b: "isl (fst (element v (execAll acts freshHeap r))) \<longleftrightarrow>
      length (build (execAll acts freshHeap r)) = 1"
    unfolding element_raises by auto
  have c: "fst (element v this) = Inr () \<longleftrightarrow> \<not> isl (fst (element v this))"
    by (cases "fst (element v this)") simp_all
  have d: "combo (snd (element v this)) = combo this @ [concat (build this)]
        \<and> build (snd (element v this)) = [v]
        \<and> order (snd (element v this)) = [rank ElementK]"
    if "2 \<le> length (build this)"
    by (simp add: element_archives [OF that])
  from element_raises [of v this] b c d show ?thesis by blast
qed

theorem element_raises_iff_witness:
  "build (snd (appendAll [(ElementK, ''div''), (IdK, ''main'')] cssSelectorBuilder)) = [''div'', ''#main'']
   \<and> combo (snd (element ''p'' (snd (appendAll [(ElementK, ''div''), (IdK, ''main'')] cssSelectorBuilder))))
       = [''div#main'']
   \<and> build (snd (element ''p'' (snd (appendAll [(ElementK, ''div''), (IdK, ''main'')] cssSelectorBuilder))))
       = [''p'']
   \<and> isl (fst (element ''p'' (execAll [Append 0 ElementK ''div''] freshHeap 0)))
   \<and> \<not> isl (fst (element ''p'' (execAll [] freshHeap 0)))"
proof -
  have s: "snd (appendAll [(ElementK, ''div''), (IdK, ''main'')] cssSelectorBuilder)
      = \<lparr>idCheck = True, pseudoElementCheck = False, order = [0, 1], combo = [],
          build = [''div'', ''#main'']\<rparr>"
    by (simp add: andThen_def fragment_eq fragment_element element_eq cssSelectorBuilder_def)
  have one: "length (build (execAll [Append 0 ElementK ''div''] freshHeap 0)) = 1"
    by (simp add: snd_invoke freshHeap_def fragment_element element_eq cssSelectorBuilder_def)
  have none: "length (build (execAll [] freshHeap 0)) \<noteq> 1"
    by (simp add: freshHeap_def cssSelectorBuilder_def)
  let ?X = "\<lparr>idCheck = True, pseudoElementCheck = False, order = [0, 1], combo = [],
          build = [''div'', ''#main'']\<rparr>"
  have two: "2 \<le> length (build ?X)" by simp
  note t1 = element_raises_iff [where this = "?X" and v = "''p''"
      and acts = "[Append 0 ElementK ''div'']" and r = 0]
  note t2 = element_raises_iff [where this = cssSelectorBuilder and v = "''p''"
      and acts = "[]" and r = 0]
  from t1 two have e: "combo (snd (element ''p'' ?X)) = combo ?X @ [concat (build ?X)]
      \<and> build (snd (element ''p'' ?X)) = [''p'']"
    by blast
  from t1 one have f: "isl (fst (element ''p'' (execAll [Append 0 ElementK ''div''] freshHeap 0)))"
    by blast
  from t2 none have g: "\<not> isl (fst (element ''p'' (execAll [] freshHeap 0)))"
    by blast
  show ?thesis
    unfolding s using e f g by simp
qed

subsection \<open>Error messages\<close>

lemma messages_differ: "duplicateMessage \<noteq> orderMessage"
  by (simp add: duplicateMessage_def orderMessage_def)

text \<open>
  C8, as stated, fails: the message of the error raised by \<^verbatim>\<open>id('x').id('y')\<close>
  is not "duplicate exclusive fragment", and the message of the error raised by
  \<^verbatim>\<open>class('x').id('y')\<close> is not "out-of-order fragment".
\<close>

theorem messages_are_not_the_category_names:
  "fst (appendAll [(IdK, ''x''), (IdK, ''y'')] cssSelectorBuilder) = Inl (Error duplicateMessage)
   \<and> duplicateMessage \<noteq> ''duplicate exclusive fragment''
   \<and> fst (appendAll [(ClassK, ''x''), (IdK, ''y'')] cssSelectorBuilder) = Inl (Error orderMessage)
   \<and> orderMessage \<noteq> ''out-of-order fragment''"
  by (simp add: andThen_def fragment_eq cssSelectorBuilder_def)
     (simp add: duplicateMessage_def orderMessage_def)

text \<open>
  C8, amended. Every error a fragment method raises carries one of the two message
  texts of the source. For the five kinds other than element, the message is the
  text about repeated fragments exactly when the uniqueness flag of the kind is
  set, and the text about the order of the parts exactly when the flag is not set
  and the rank is lower than the last recorded rank.
\<close>

theorem error_message_by_rule:
  "fst (fragment k v this) = Inl (Error m) \<Longrightarrow>
     (m = duplicateMessage \<or> m = orderMessage)
     \<and> (k \<noteq> ElementK \<longrightarrow>
          (m = duplicateMessage \<longleftrightarrow> flagged k this)
          \<and> (m = orderMessage \<longleftrightarrow>
               \<not> flagged k this \<and> order this \<noteq> [] \<and> rank k < last (order this)))"
proof (cases "k = ElementK")
  case True
  assume "fst (fragment k v this) = Inl (Error m)"
  then show ?thesis using True
    by (auto simp add: fragment_element element_eq split: if_splits)
next
  case False
  assume "fst (fragment k v this) = Inl (Error m)"
  then show ?thesis using False messages_differ
    by (auto simp add: fragment_eq split: if_splits)
qed

theorem error_message_by_rule_witness:
  "fst (fragment IdK ''y'' (snd (fragment IdK ''x'' cssSelectorBuilder)))
     = Inl (Error ''Element, id and pseudo-element should not occur more then one time inside the selector'')
   \<and> flagged IdK (snd (fragment IdK ''x'' cssSelectorBuilder))
   \<and> fst (fragment IdK ''y'' (snd (fragment ClassK ''x'' cssSelectorBuilder)))
     = Inl (Error ''Selector parts should be arranged in the following order: element, id, class, attribute, pseudo-class, pseudo-element'')
   \<and> \<not> flagged IdK (snd (fragment ClassK ''x'' cssSelectorBuilder))"
proof -
  have a: "fst (fragment IdK ''y'' (snd (fragment IdK ''x'' cssSelectorBuilder)))
      = Inl (Error duplicateMessage)"
    by (simp add: fragment_eq cssSelectorBuilder_def)
  have b: "fst (fragment IdK ''y'' (snd (fragment ClassK ''x'' cssSelectorBuilder)))
      = Inl (Error orderMessage)"
    by (simp add: fragment_eq cssSelectorBuilder_def)
  have "flagged IdK (snd (fragment IdK ''x'' cssSelectorBuilder))"
    using error_message_by_rule [OF a] by simp
  moreover have "\<not> flagged IdK (snd (fragment ClassK ''x'' cssSelectorBuilder))"
    using error_message_by_rule [OF b] by simp
  ultimately show ?thesis
    using a b by (simp add: duplicateMessage_def orderMessage_def)
qed

subsection \<open>The whole state is reset\<close>

text \<open>
  C10. After \<open>stringify\<close>, after a fragment method that raises, and after \<open>error\<close>,
  every mutable field of the builder has its initial value: the fragment list, the
  pending segments in \<open>combo\<close>, the recorded ranks and both flags. In particular
  \<open>stringify\<close> discards the segments archived by earlier \<open>element\<close> calls.
\<close>

theorem reset_restores_every_field:
  "(let this' = snd (stringify this)
    in build this' = [] \<and> combo this' = [] \<and> order this' = []
       \<and> \<not> idCheck this' \<and> \<not> pseudoElementCheck this')
   \<and> (isl (fst (fragment k v this)) \<longrightarrow>
        (let this' = snd (fragment k v this)
         in build this' = [] \<and> combo this' = [] \<and> order this' = []
            \<and> \<not> idCheck this' \<and> \<not> pseudoElementCheck this'))
   \<and> (let this' = snd (error msg this :: unit result \<times> builder)
      in build this' = [] \<and> combo this' = [] \<and> order this' = []
         \<and> \<not> idCheck this' \<and> \<not> pseudoElementCheck this')
   \<and> snd (stringify this) = cssSelectorBuilder"
proof -
  have e: "build cssSelectorBuilder = [] \<and> combo cssSelectorBuilder = []
      \<and> order cssSelectorBuilder = [] \<and> \<not> idCheck cssSelectorBuilder
      \<and> \<not> pseudoElementCheck cssSelectorBuilder"
    by (simp add: cssSelectorBuilder_def)
  show ?thesis
    using e raises_clears [of k v this] by (simp add: stringify_eq error_eq Let_def)
qed

theorem reset_restores_every_field_witness:
  "combo (snd (appendAll [(ElementK, ''a''), (IdK, ''b''), (ElementK, ''c'')] cssSelectorBuilder)) = [''a#b'']
   \<and> combo (snd (stringify (snd (appendAll [(ElementK, ''a''), (IdK, ''b''), (ElementK, ''c'')] cssSelectorBuilder)))) = []
   \<and> isl (fst (fragment ElementK ''d'' (snd (appendAll [(ElementK, ''a''), (IdK, ''b''), (ElementK, ''c'')] cssSelectorBuilder))))
   \<and> combo (snd (fragment ElementK ''d'' (snd (appendAll [(ElementK, ''a''), (IdK, ''b''), (ElementK, ''c'')] cssSelectorBuilder)))) = []"
proof -
  have s: "snd (appendAll [(ElementK, ''a''), (IdK, ''b''), (ElementK, ''c'')] cssSelectorBuilder)
      = \<lparr>idCheck = False, pseudoElementCheck = False, order = [0], combo = [''a#b''], build = [''c'']\<rparr>"
    by (simp add: andThen_def fragment_eq fragment_element element_eq cssSelectorBuilder_def)
  have r: "isl (fst (fragment ElementK ''d'' \<lparr>idCheck = False, pseudoElementCheck = False, order = [0], combo = [''a#b''], build = [''c'']\<rparr>))"
    by (simp add: fragment_element element_eq)
  note t = reset_restores_every_field [where this = "\<lparr>idCheck = False, pseudoElementCheck = False, order = [0], combo = [''a#b''], build = [''c'']\<rparr>"
      and k = ElementK and v = "''d''" and msg = "[]", unfolded Let_def]
  have "combo \<lparr>idCheck = False, pseudoElementCheck = False, order = [0], combo = [''a#b''], build = [''c'']\<rparr> = [''a#b'']"
    by simp
  with r t show ?thesis unfolding s by blast
qed

subsection \<open>Rendering of chains\<close>

lemma evalSelector_Chain_fresh:
  "wellFormed fs \<Longrightarrow>
     fst (evalSelector b (Chain fs) freshHeap) = Inr ()
     \<and> build (snd (evalSelector b (Chain fs) freshHeap) b) = map fragmentText fs
     \<and> combo (snd (evalSelector b (Chain fs) freshHeap) b) = []"
  using appendAll_fresh [of fs] by (simp add: fst_invoke snd_invoke freshHeap_def)

lemma stringifySelector_eq:
  "fst (evalSelector b e freshHeap) = Inr () \<Longrightarrow>
     stringifySelector b e = Inr (concat (build (snd (evalSelector b e freshHeap) b)))"
  by (cases "evalSelector b e freshHeap")
     (simp add: stringifySelector_def fst_invoke stringify_eq)

text \<open>
  C7. A well-formed chain of fragment calls on the fresh builder, followed by
  \<open>stringify\<close>, returns the texts of the fragments with their prefixes, in the
  order of the calls and with nothing between them. The method the claim calls
  \<^verbatim>\<open>className\<close> is \<^verbatim>\<open>class\<close> in the source. In particular
  \<^verbatim>\<open>id('main').class('a').class('b').stringify()\<close> returns \<^verbatim>\<open>#main.a.b\<close> and
  \<^verbatim>\<open>element('a').attr('href$=".png"').pseudoClass('focus').stringify()\<close> returns
  \<^verbatim>\<open>a[href$=".png"]:focus\<close>.
\<close>

theorem chain_renders_prefixed_fragments:
  \<open>(wellFormed fs \<longrightarrow> stringifySelector b (Chain fs) = Inr (concat (map fragmentText fs)))
   \<and> stringifySelector b (Chain [(IdK, ''main''), (ClassK, ''a''), (ClassK, ''b'')])
       = Inr ''#main.a.b''
   \<and> stringifySelector b
        (Chain [(ElementK, ''a''), (AttributeK, ''href$=".png"''), (PseudoClassK, ''focus'')])
       = Inr ''a[href$=".png"]:focus''\<close>
proof -
  have g: "stringifySelector b (Chain fs) = Inr (concat (map fragmentText fs))"
    if "wellFormed fs" for fs
    using evalSelector_Chain_fresh [OF that, of b] by (simp add: stringifySelector_eq)
  have "wellFormed [(IdK, ''main''), (ClassK, ''a''), (ClassK, ''b'')]"
    by (simp add: wellFormed_def)
  from g [OF this]
  have a: "stringifySelector b (Chain [(IdK, ''main''), (ClassK, ''a''), (ClassK, ''b'')])
      = Inr ''#main.a.b''"
    by simp
  have \<open>wellFormed [(ElementK, ''a''), (AttributeK, ''href$=".png"''), (PseudoClassK, ''focus'')]\<close>
    by (simp add: wellFormed_def)
  from g [OF this]
  have \<open>stringifySelector b
        (Chain [(ElementK, ''a''), (AttributeK, ''href$=".png"''), (PseudoClassK, ''focus'')])
      = Inr ''a[href$=".png"]:focus''\<close>
    by simp
  with a g [of fs] show ?thesis by blast
qed

theorem chain_renders_prefixed_fragments_witness:
  "wellFormed [(ElementK, ''div''), (IdK, ''main''), (ClassK, ''container''),
      (AttributeK, ''href''), (PseudoClassK, ''focus''), (PseudoElementK, ''before'')]
   \<and> stringifySelector 0
       (Chain [(ElementK, ''div''), (IdK, ''main''), (ClassK, ''container''),
          (AttributeK, ''href''), (PseudoClassK, ''focus''), (PseudoElementK, ''before'')])
     = Inr ''div#main.container[href]:focus::before''"
proof -
  have w: "wellFormed [(ElementK, ''div''), (IdK, ''main''), (ClassK, ''container''),
      (AttributeK, ''href''), (PseudoClassK, ''focus''), (PseudoElementK, ''before'')]"
    by (simp add: wellFormed_def)
  show ?thesis
    using w chain_renders_prefixed_fragments [where b = 0 and fs = "[(ElementK, ''div''), (IdK, ''main''), (ClassK, ''container''),
      (AttributeK, ''href''), (PseudoClassK, ''focus''), (PseudoElementK, ''before'')]"]
    by simp
qed

subsection \<open>\<open>combine\<close>\<close>

lemma evalSelector_Combined:
  assumes "fst (evalSelector b l h) = Inr ()"
    and "fst (evalSelector b r (snd (evalSelector b l h))) = Inr ()"
  shows "evalSelector b (Combined l c r) h =
    (Inr (), snd (combine b b c b (snd (evalSelector b r (snd (evalSelector b l h))))))"
proof -
  obtain h1 where 1: "evalSelector b l h = (Inr (), h1)"
    using assms(1) by (cases "evalSelector b l h") auto
  obtain h2 where 2: "evalSelector b r h1 = (Inr (), h2)"
    using assms(2) 1 by (cases "evalSelector b r h1") auto
  show ?thesis by (simp add: 1 2)
qed

lemma combine_self:
  "combo (h b) = cs @ [left] \<Longrightarrow>
     build (snd (combine b b c b h) b) = [left @ '' '' @ c @ '' '' @ concat (build (h b))]
     \<and> combo (snd (combine b b c b h) b) = cs"
  by (simp add: combine_build combine_combo pop_def)

lemma evalSelector_archiving:
  "combinable e \<Longrightarrow> opensWithElement e \<Longrightarrow> 2 \<le> length (build (h b)) \<Longrightarrow>
     fst (evalSelector b e h) = Inr ()
     \<and> combo (snd (evalSelector b e h) b) = combo (h b) @ [concat (build (h b))]
     \<and> concat (build (snd (evalSelector b e h) b)) = render e
     \<and> (archived e \<longrightarrow> 2 \<le> length (build (snd (evalSelector b e h) b)))"
proof (induction e arbitrary: h)
  case (Chain fs)
  then obtain v fs' where fs: "fs = (ElementK, v) # fs'"
    by (cases fs) (auto split: list.splits)
  have wf: "wellFormed ((ElementK, v) # fs')" using Chain.prems(1) fs by simp
  from appendAll_archiving [OF wf Chain.prems(3)]
  show ?case unfolding fs by (simp add: fst_invoke snd_invoke)
next
  case (Combined l c r)
  let ?h1 = "snd (evalSelector b l h)"
  let ?h2 = "snd (evalSelector b r ?h1)"
  have l: "combinable l" "opensWithElement l" "archived l"
    using Combined.prems(1,2) by (cases l; simp)+
  have r: "combinable r" "opensWithElement r" using Combined.prems(1) by simp_all
  note L = Combined.IH(1) [where h = h, OF l(1) l(2) Combined.prems(3)]
  have len: "2 \<le> length (build (?h1 b))" using L l(3) by simp
  note R = Combined.IH(2) [where h = "?h1", OF r len]
  have ev: "evalSelector b (Combined l c r) h = (Inr (), snd (combine b b c b ?h2))"
    using L R by (intro evalSelector_Combined) simp_all
  have cmb: "combo (?h2 b) = (combo (h b) @ [concat (build (h b))]) @ [render l]"
    using L R by simp
  show ?case
    unfolding ev
    using combine_self [where h = "?h2" and b = b and c = c, OF cmb] R by simp
qed

text \<open>
  C6. The code does not do what the claim says. \<^verbatim>\<open>combine(element('div'), '+', element('p'))\<close>
  should render \<^verbatim>\<open>div + p\<close>; it raises, because the second \<open>element\<close> call
  finds one fragment and reports a repeated element. \<^verbatim>\<open>combine(class('a'), '+', class('b'))\<close>
  should render \<^verbatim>\<open>.a + .b\<close>; no \<open>element\<close> call archives the left operand, the
  pop on the empty \<open>combo\<close> yields \<^verbatim>\<open>undefined\<close>, and the result is
  \<^verbatim>\<open>undefined + .a.b\<close>.
\<close>

theorem combine_of_single_fragments_fails:
  "render (Combined (Chain [(ElementK, ''div'')]) ''+'' (Chain [(ElementK, ''p'')])) = ''div + p''
   \<and> stringifySelector 0 (Combined (Chain [(ElementK, ''div'')]) ''+'' (Chain [(ElementK, ''p'')]))
       = Inl (Error duplicateMessage)
   \<and> render (Combined (Chain [(ClassK, ''a'')]) ''+'' (Chain [(ClassK, ''b'')])) = ''.a + .b''
   \<and> stringifySelector 0 (Combined (Chain [(ClassK, ''a'')]) ''+'' (Chain [(ClassK, ''b'')]))
       = Inr ''undefined + .a.b''"
  by (simp add: stringifySelector_def invoke_def freshHeap_def andThen_def fragment_eq
      fragment_element element_eq cssSelectorBuilder_def combine_def pop_def stringify_eq)

text \<open>
  Where the left operand is a well-formed chain of at least two fragments and the
  right operand opens with an element call, the element call archives the left
  operand and the result is the documented one, as in the example of the source's
  documentation.
\<close>

lemma combine_of_archived_operands:
  "archived l \<and> opensWithElement r \<and> combinable r \<longrightarrow>
     stringifySelector b (Combined l c r) = Inr (render l @ '' '' @ c @ '' '' @ render r)"
proof -
  have "stringifySelector b (Combined l c r) = Inr (render l @ '' '' @ c @ '' '' @ render r)"
    if l: "archived l" and r: "opensWithElement r" "combinable r"
  proof -
    obtain fs where fs: "l = Chain fs" "wellFormed fs" "2 \<le> length fs"
      using l by (cases l) simp_all
    let ?h1 = "snd (evalSelector b l freshHeap)"
    let ?h2 = "snd (evalSelector b r ?h1)"
    note L = evalSelector_Chain_fresh [OF fs(2), of b, folded fs(1)]
    have len: "2 \<le> length (build (?h1 b))" using L fs(3) by simp
    note R = evalSelector_archiving [where h = "?h1" and b = b, OF r(2) r(1) len]
    have tx: "concat (build (?h1 b)) = render l" using L by (simp add: fs(1))
    have ev: "evalSelector b (Combined l c r) freshHeap = (Inr (), snd (combine b b c b ?h2))"
      using L R by (intro evalSelector_Combined) simp_all
    have cmb: "combo (?h2 b) = [] @ [render l]" using L R tx by simp
    have "stringifySelector b (Combined l c r)
        = Inr (concat (build (snd (combine b b c b ?h2) b)))"
      using stringifySelector_eq [of b "Combined l c r"] by (simp only: ev fst_conv snd_conv)
    then show ?thesis
      using combine_self [where h = "?h2" and b = b and c = c, OF cmb] R by simp
  qed
  then show ?thesis by simp
qed

lemma combine_documented_example:
  "stringifySelector 0
     (Combined
        (Chain [(ElementK, ''div''), (IdK, ''main''), (ClassK, ''container''), (ClassK, ''draggable'')])
        ''+''
        (Combined
           (Chain [(ElementK, ''table''), (IdK, ''data'')])
           ''~''
           (Combined
              (Chain [(ElementK, ''tr''), (PseudoClassK, ''nth-of-type(even)'')])
              '' ''
              (Chain [(ElementK, ''td''), (PseudoClassK, ''nth-of-type(even)'')]))))
   = Inr ''div#main.container.draggable + table#data ~ tr:nth-of-type(even)   td:nth-of-type(even)''"
proof -
  have "archived (Chain [(ElementK, ''div''), (IdK, ''main''), (ClassK, ''container''), (ClassK, ''draggable'')])
    \<and> opensWithElement (Combined
           (Chain [(ElementK, ''table''), (IdK, ''data'')])
           ''~''
           (Combined
              (Chain [(ElementK, ''tr''), (PseudoClassK, ''nth-of-type(even)'')])
              '' ''
              (Chain [(ElementK, ''td''), (PseudoClassK, ''nth-of-type(even)'')])))
    \<and> combinable (Combined
           (Chain [(ElementK, ''table''), (IdK, ''data'')])
           ''~''
           (Combined
              (Chain [(ElementK, ''tr''), (PseudoClassK, ''nth-of-type(even)'')])
              '' ''
              (Chain [(ElementK, ''td''), (PseudoClassK, ''nth-of-type(even)'')])))"
    by (simp add: wellFormed_def)
  then show ?thesis
    using combine_of_archived_operands [where b = 0 and c = "''+''"
      and l = "Chain [(ElementK, ''div''), (IdK, ''main''), (ClassK, ''container''), (ClassK, ''draggable'')]"
      and r = "Combined
           (Chain [(ElementK, ''table''), (IdK, ''data'')])
           ''~''
           (Combined
              (Chain [(ElementK, ''tr''), (PseudoClassK, ''nth-of-type(even)'')])
              '' ''
              (Chain [(ElementK, ''td''), (PseudoClassK, ''nth-of-type(even)'')]))"]
    by simp
qed


subsection \<open>The JSON round trip\<close>

lemma hexVal_hexDigit: "n < 16 \<Longrightarrow> hexVal (hexDigit n) = Some n"
  by (auto simp add: hexVal_def hexDigit_def Let_def)

lemma parseChars_escapeChar:
  "parseChars (escapeChar c @ s) = consTo c (parseChars s)"
proof -
  consider "c = quote" | "c = backslash" | "c = CHR 0x08" | "c = CHR 0x09" | "c = CHR 0x0A"
    | "c = CHR 0x0C" | "c = CHR 0x0D"
    | "c \<noteq> quote" "c \<noteq> backslash" "c \<noteq> CHR 0x08" "c \<noteq> CHR 0x09" "c \<noteq> CHR 0x0A"
      "c \<noteq> CHR 0x0C" "c \<noteq> CHR 0x0D" "(of_char c :: nat) < 32"
    | "c \<noteq> quote" "c \<noteq> backslash" "\<not> (of_char c :: nat) < 32"
    by (cases "(of_char c :: nat) < 32") auto
  then show ?thesis
  proof cases
    case 8
    have hi: "(of_char c :: nat) div 16 < 16" and lo: "(of_char c :: nat) mod 16 < 16"
      using 8(8) by auto
    have n: "(of_char c :: nat) div 16 * 16 + of_char c mod 16 = of_char c" by simp
    have z: "hexVal (CHR ''0'') = Some 0" by (simp add: hexVal_def)
    show ?thesis
      using 8 by (simp add: escapeChar_def hex4_def z hexVal_hexDigit [OF hi] hexVal_hexDigit [OF lo]
          quote_def backslash_def n)
  next
    case 9
    then have "c \<noteq> CHR 0x08" "c \<noteq> CHR 0x09" "c \<noteq> CHR 0x0A" "c \<noteq> CHR 0x0C" "c \<noteq> CHR 0x0D"
      by auto
    then show ?thesis using 9 by (simp add: escapeChar_def)
  qed (simp_all add: escapeChar_def unescape_def quote_def backslash_def)
qed

lemma parseChars_quoted:
  "parseChars (concat (map escapeChar s) @ quote # rest) = Some (s, rest)"
  by (induction s) (simp_all add: parseChars_escapeChar consTo_def)

lemma isDigit_digitChar: "n < 10 \<Longrightarrow> isDigit (digitChar n)"
  by (simp add: isDigit_def digitChar_def)

lemma digitVal_digitChar: "n < 10 \<Longrightarrow> digitVal (digitChar n) = n"
  by (simp add: digitVal_def digitChar_def)

lemma showNat_digits: "\<forall>c\<in>set (showNat n). isDigit c"
proof (induction n rule: showNat.induct)
  case (1 n)
  show ?case
  proof (cases "n < 10")
    case True
    then show ?thesis by (subst showNat.simps) (simp add: isDigit_digitChar)
  next
    case False
    then show ?thesis using 1 by (subst showNat.simps) (simp add: isDigit_digitChar)
  qed
qed

lemma showNat_nonempty: "showNat n \<noteq> []"
  by (subst showNat.simps) simp

lemma natOfDigits_snoc: "natOfDigits (ds @ [c]) = 10 * natOfDigits ds + digitVal c"
  by (simp add: natOfDigits_def)

lemma natOfDigits_showNat: "natOfDigits (showNat n) = n"
proof (induction n rule: showNat.induct)
  case (1 n)
  show ?case
  proof (cases "n < 10")
    case True
    then show ?thesis
      by (subst showNat.simps) (simp add: natOfDigits_def digitVal_digitChar)
  next
    case False
    then show ?thesis using 1
      by (subst showNat.simps) (simp add: natOfDigits_snoc digitVal_digitChar)
  qed
qed

lemma showNat_leading: "hd (showNat n) = CHR ''0'' \<Longrightarrow> showNat n = ''0''"
proof (induction n rule: showNat.induct)
  case (1 n)
  show ?case
  proof (cases "n < 10")
    case True
    then show ?thesis using "1.prems"
      by (subst showNat.simps, subst (asm) showNat.simps) (simp add: digitChar_def)
  next
    case False
    then have eq: "showNat n = showNat (n div 10) @ [digitChar (n mod 10)]"
      by (subst showNat.simps) simp
    then have "hd (showNat (n div 10)) = CHR ''0''"
      using "1.prems" showNat_nonempty [of "n div 10"] by simp
    then have "showNat (n div 10) = ''0''" using False 1 by simp
    then have "natOfDigits (showNat (n div 10)) = 0" by (simp add: natOfDigits_def digitVal_def)
    then have "n div 10 = 0" by (simp add: natOfDigits_showNat)
    then show ?thesis using False by simp
  qed
qed

lemma not_digit_delimited: "delimited rest \<Longrightarrow> rest \<noteq> [] \<Longrightarrow> \<not> isDigit (hd rest)"
  by (auto simp add: delimited_def isDigit_def)

lemma takeWhile_showNat:
  "delimited rest \<Longrightarrow> takeWhile isDigit (showNat n @ rest) = showNat n"
  using showNat_digits [of n] not_digit_delimited [of rest]
  by (cases rest) (simp_all add: takeWhile_append2 takeWhile_eq_all_conv [THEN iffD2] takeWhile_tail)

lemma dropWhile_showNat:
  "delimited rest \<Longrightarrow> dropWhile isDigit (showNat n @ rest) = rest"
  using showNat_digits [of n] not_digit_delimited [of rest]
  by (cases rest) (simp_all add: dropWhile_append2 dropWhile_append3)

lemma showNat_not_minus: "hd (showNat n) \<noteq> CHR ''-''"
  using showNat_digits [of n] showNat_nonempty [of n]
  by (cases "showNat n") (auto simp add: isDigit_def)

lemma parseNumber_showInt:
  assumes "delimited rest"
  shows "parseNumber (showInt i @ rest) = Some (i, rest)"
proof -
  have d: "\<not> (rest \<noteq> [] \<and> (hd rest = CHR ''.'' \<or> hd rest = CHR ''e'' \<or> hd rest = CHR ''E''))"
    using assms by (auto simp add: delimited_def)
  have lead: "\<not> (hd (showNat n) = CHR ''0'' \<and> 1 < length (showNat n))" for n
    using showNat_leading [of n] by auto
  show ?thesis
  proof (cases "i < 0")
    case True
    then show ?thesis
      using d lead [of "nat (- i)"] showNat_nonempty [of "nat (- i)"]
      by (simp add: parseNumber_def showInt_def Let_def takeWhile_showNat [OF assms]
          dropWhile_showNat [OF assms] natOfDigits_showNat)
  next
    case False
    have hd: "hd (showNat (nat i) @ rest) \<noteq> CHR ''-''"
      using showNat_nonempty [of "nat i"] showNat_not_minus [of "nat i"] by simp
    show ?thesis
      using False d lead [of "nat i"] showNat_nonempty [of "nat i"] hd
      by (simp add: parseNumber_def showInt_def Let_def takeWhile_showNat [OF assms]
          dropWhile_showNat [OF assms] natOfDigits_showNat)
  qed
qed

lemma skipWhitespace_Cons: "\<not> isWhitespace c \<Longrightarrow> skipWhitespace (c # s) = c # s"
  by (simp add: skipWhitespace_def)

lemma skipWhitespace_Nil: "skipWhitespace [] = []"
  by (simp add: skipWhitespace_def)

lemma showNat_Cons: "\<exists>c cs. showNat n = c # cs \<and> isDigit c"
  using showNat_digits [of n] showNat_nonempty [of n] by (cases "showNat n") auto

lemma stringifyValue_Cons:
  "\<exists>c cs. stringifyValue v = c # cs \<and> \<not> isWhitespace c \<and> c \<noteq> CHR '']'' \<and> c \<noteq> CHR ''}''"
proof (cases v)
  case (JNumber i)
  obtain c cs where "showNat (nat \<bar>i\<bar>) = c # cs" "isDigit c"
    using showNat_Cons by blast
  then show ?thesis using JNumber
    by (cases "i < 0") (auto simp add: showInt_def isWhitespace_def isDigit_def abs_if)
qed (auto simp add: isWhitespace_def quoteJSONString_def quote_def)

lemma skipWhitespace_stringify:
  "skipWhitespace (stringifyValue v @ s) = stringifyValue v @ s"
  using stringifyValue_Cons [of v] by (auto simp add: skipWhitespace_Cons)

lemma showInt_Cons: "\<exists>c cs. showInt i = c # cs \<and> (c = CHR ''-'' \<or> isDigit c)"
proof -
  obtain d ds where "showNat (nat \<bar>i\<bar>) = d # ds" "isDigit d"
    using showNat_Cons by blast
  then show ?thesis by (cases "i < 0") (auto simp add: showInt_def abs_if)
qed

lemma parseValue_number:
  assumes "delimited rest"
  shows "parseValue (Suc n) (showInt i @ rest) = Some (JNumber i, rest)"
proof -
  obtain c cs where c: "showInt i = c # cs" "c = CHR ''-'' \<or> isDigit c"
    using showInt_Cons by blast
  have "c \<noteq> CHR ''n''" "c \<noteq> CHR ''t''" "c \<noteq> CHR ''f''" "c \<noteq> quote" "c \<noteq> CHR ''[''"
    "c \<noteq> CHR ''{''"
    using c(2) by (auto simp add: isDigit_def quote_def)
  then have "parseValue (Suc n) ((c # cs) @ rest) =
      (case parseNumber ((c # cs) @ rest) of None \<Rightarrow> None
       | Some (i, rest) \<Rightarrow> Some (JNumber i, rest))"
    by simp
  then show ?thesis
    unfolding c(1) [symmetric] by (simp add: parseNumber_showInt [OF assms])
qed

lemma parseValue_string:
  "parseValue (Suc n) (quoteJSONString s @ rest) = Some (JString s, rest)"
  by (simp add: quoteJSONString_def parseChars_quoted) (simp add: quote_def)

lemma delimited_simps:
  "delimited (CHR '','' # s)" "delimited (CHR '']'' # s)" "delimited (CHR ''}'' # s)"
  "delimited []"
  by (simp_all add: delimited_def)

lemma not_whitespace:
  "\<not> isWhitespace (CHR '','')" "\<not> isWhitespace (CHR '']'')" "\<not> isWhitespace (CHR ''}'')"
  "\<not> isWhitespace (CHR '':'')" "\<not> isWhitespace quote"
  by (simp_all add: isWhitespace_def quote_def)

lemma parseElements_join:
  assumes "\<And>v fuel rest. v \<in> set vs \<Longrightarrow> length (stringifyValue v) \<le> fuel \<Longrightarrow>
      delimited rest \<Longrightarrow> parseValue fuel (stringifyValue v @ rest) = Some (v, rest)"
    and "vs \<noteq> []"
    and "length (commaJoin (map stringifyValue vs)) < fuel"
  shows "parseElements fuel (commaJoin (map stringifyValue vs) @ CHR '']'' # rest) = Some (vs, rest)"
  using assms
proof (induction vs arbitrary: fuel)
  case Nil
  then show ?case by simp
next
  case (Cons v vs)
  obtain n where fuel: "fuel = Suc n" using Cons.prems(3) by (cases fuel) auto
  show ?case
  proof (cases vs)
    case Nil
    have "parseValue n (stringifyValue v @ CHR '']'' # rest) = Some (v, CHR '']'' # rest)"
      using Cons.prems(3) fuel Nil by (intro Cons.prems(1)) (simp_all add: delimited_simps)
    then show ?thesis
      using Nil by (simp add: fuel skipWhitespace_Cons not_whitespace)
  next
    case (Cons w ws)
    let ?tail = "commaJoin (map stringifyValue vs) @ CHR '']'' # rest"
    have len: "length (stringifyValue v) \<le> n" "length (commaJoin (map stringifyValue vs)) < n"
      using Cons.prems(3) fuel Cons by simp_all
    have v: "parseValue n (stringifyValue v @ CHR '','' # ?tail) = Some (v, CHR '','' # ?tail)"
      using len(1) by (intro Cons.prems(1)) (simp_all add: delimited_simps)
    have "commaJoin (map stringifyValue vs) = stringifyValue w @ drop (length (stringifyValue w)) (commaJoin (map stringifyValue vs))"
      using Cons by (cases ws) simp_all
    then have skip: "skipWhitespace ?tail = ?tail"
      by (metis skipWhitespace_stringify append_assoc)
    have rest: "parseElements n ?tail = Some (vs, rest)"
      using Cons.prems(1) len(2) Cons by (intro Cons.IH) simp_all
    have join: "commaJoin (map stringifyValue (v # vs))
        = stringifyValue v @ CHR '','' # commaJoin (map stringifyValue vs)"
      using Cons by simp
    show ?thesis
      unfolding join fuel
      by (simp add: v rest skip skipWhitespace_Cons not_whitespace del: list.map)
  qed
qed

lemma stringifyValue_JObject:
  "stringifyValue (JObject kvs) = ''{'' @ commaJoin (map memberText kvs) @ ''}''"
  by (simp add: memberText_def [abs_def])

lemma parseMember:
  assumes "parseValue n (stringifyValue (snd kv) @ tail) = Some (snd kv, tail)"
  shows "parseMembers (Suc n) (memberText kv @ tail) =
     (case skipWhitespace tail of
        [] \<Rightarrow> None
      | d # s5 \<Rightarrow>
          if d = CHR '','' then
            (case parseMembers n (skipWhitespace s5) of
               None \<Rightarrow> None
             | Some (ms, rest) \<Rightarrow> Some (kv # ms, rest))
          else if d = CHR ''}'' then Some ([kv], s5)
          else None)"
proof (cases kv)
  case (Pair k v)
  have tx: "memberText (k, v) @ tail =
      quote # (concat (map escapeChar k) @ quote # CHR '':'' # stringifyValue v @ tail)"
    by (simp add: memberText_def quoteJSONString_def)
  have "parseValue n (stringifyValue v @ tail) = Some (v, tail)"
    using assms Pair by simp
  then show ?thesis
    unfolding Pair tx
    by (simp add: parseChars_quoted skipWhitespace_Cons not_whitespace
        skipWhitespace_stringify del: parseChars.simps)
qed

lemma memberText_Cons: "\<exists>cs. memberText kv = quote # cs"
  by (simp add: memberText_def quoteJSONString_def)

lemma length_memberText: "length (stringifyValue (snd kv)) < length (memberText kv)"
  by (simp add: memberText_def)

lemma parseMembers_join:
  assumes "\<And>kv fuel rest. kv \<in> set kvs \<Longrightarrow> length (stringifyValue (snd kv)) \<le> fuel \<Longrightarrow>
      delimited rest \<Longrightarrow>
      parseValue fuel (stringifyValue (snd kv) @ rest) = Some (snd kv, rest)"
    and "kvs \<noteq> []"
    and "length (commaJoin (map memberText kvs)) < fuel"
  shows "parseMembers fuel (commaJoin (map memberText kvs) @ CHR ''}'' # rest) = Some (kvs, rest)"
  using assms
proof (induction kvs arbitrary: fuel)
  case Nil
  then show ?case by simp
next
  case (Cons kv kvs)
  obtain n where fuel: "fuel = Suc n" using Cons.prems(3) by (cases fuel) auto
  show ?case
  proof (cases kvs)
    case Nil
    have "length (stringifyValue (snd kv)) \<le> n"
      using Cons.prems(3) fuel Nil length_memberText [of kv] by simp
    then have "parseValue n (stringifyValue (snd kv) @ CHR ''}'' # rest)
        = Some (snd kv, CHR ''}'' # rest)"
      by (intro Cons.prems(1)) (simp_all add: delimited_simps)
    from parseMember [OF this]
    show ?thesis using Nil by (simp add: fuel skipWhitespace_Cons not_whitespace)
  next
    case (Cons kw kws)
    let ?tail = "commaJoin (map memberText kvs) @ CHR ''}'' # rest"
    have join: "commaJoin (map memberText (kv # kvs))
        = memberText kv @ CHR '','' # commaJoin (map memberText kvs)"
      using Cons by simp
    have len: "length (stringifyValue (snd kv)) \<le> n"
      "length (commaJoin (map memberText kvs)) < n"
      using Cons.prems(3) fuel length_memberText [of kv] unfolding join by simp_all
    have "parseValue n (stringifyValue (snd kv) @ CHR '','' # ?tail)
        = Some (snd kv, CHR '','' # ?tail)"
      using len(1) by (intro Cons.prems(1)) (simp_all add: delimited_simps)
    note m = parseMember [OF this]
    obtain cs where "memberText kw = quote # cs" using memberText_Cons by blast
    then have "\<exists>cs. ?tail = quote # cs" using Cons by (cases kws) simp_all
    then have skip: "skipWhitespace ?tail = ?tail"
      by (auto simp add: skipWhitespace_Cons not_whitespace)
    have rest: "parseMembers n ?tail = Some (kvs, rest)"
      using Cons.prems(1) len(2) Cons by (intro Cons.IH) simp_all
    show ?thesis
      unfolding join fuel
      using m by (simp add: rest skip skipWhitespace_Cons not_whitespace del: list.map parseMembers.simps)
  qed
qed

lemma defineProperty_fresh:
  "k \<notin> fst ` set props \<Longrightarrow> defineProperty k v props = props @ [(k, v)]"
  by (induction props) auto

lemma foldl_defineProperty:
  "distinct (map fst (props @ ms)) \<Longrightarrow>
     foldl (\<lambda>props kv. defineProperty (fst kv) (snd kv) props) props ms = props @ ms"
proof (induction ms arbitrary: props)
  case Nil
  then show ?case by simp
next
  case (Cons m ms)
  have "fst m \<notin> fst ` set props" using Cons.prems by auto
  then have "defineProperty (fst m) (snd m) props = props @ [m]"
    by (simp add: defineProperty_fresh)
  moreover have "distinct (map fst ((props @ [m]) @ ms))" using Cons.prems by simp
  ultimately show ?case using Cons.IH [of "props @ [m]"] by simp
qed

lemma objectOf_distinct: "distinct (map fst ms) \<Longrightarrow> objectOf ms = JObject ms"
  using foldl_defineProperty [of "[]" ms] by (simp add: objectOf_def)

lemma parseValue_stringifyValue:
  "representable v \<Longrightarrow> length (stringifyValue v) \<le> fuel \<Longrightarrow> delimited rest \<Longrightarrow>
     parseValue fuel (stringifyValue v @ rest) = Some (v, rest)"
proof (induction v arbitrary: fuel rest)
  case JNull
  then obtain n where "fuel = Suc n" by (cases fuel) auto
  then show ?case by (simp add: parseLiteral_def)
next
  case (JBool b)
  then obtain n where "fuel = Suc n" by (cases fuel) (auto split: if_splits)
  then show ?case by (simp add: parseLiteral_def)
next
  case (JNumber i)
  then obtain n where "fuel = Suc n"
    using showInt_Cons [of i] by (cases fuel) auto
  then show ?case using JNumber.prems(3) by (simp add: parseValue_number del: parseValue.simps)
next
  case (JString s)
  then obtain n where "fuel = Suc n" by (cases fuel) (auto simp add: quoteJSONString_def)
  then show ?case by (simp add: parseValue_string del: parseValue.simps)
next
  case (JArray vs)
  obtain n where fuel: "fuel = Suc n" using JArray.prems(2) by (cases fuel) auto
  show ?case
  proof (cases "vs = []")
    case True
    then show ?thesis by (simp add: fuel skipWhitespace_Cons not_whitespace quote_def)
  next
    case False
    let ?body = "commaJoin (map stringifyValue vs) @ CHR '']'' # rest"
    obtain w ws where vs: "vs = w # ws" using False by (cases vs) auto
    obtain c cs where c: "stringifyValue w = c # cs" "\<not> isWhitespace c" "c \<noteq> CHR '']''"
      using stringifyValue_Cons by blast
    then obtain cs' where body: "?body = c # cs'" using vs by (cases ws) simp_all
    have "parseElements n ?body = Some (vs, rest)"
    proof (rule parseElements_join)
      show "vs \<noteq> []" by (rule False)
      show "length (commaJoin (map stringifyValue vs)) < n"
        using JArray.prems(2) fuel by simp
      show "parseValue fuel (stringifyValue v @ rest) = Some (v, rest)"
        if "v \<in> set vs" "length (stringifyValue v) \<le> fuel" "delimited rest" for v fuel rest
        using that JArray.prems(1) by (intro JArray.IH) (simp_all add: list_all_iff)
    qed
    then have "parseValue (Suc n) (CHR ''['' # ?body) = Some (JArray vs, rest)"
      unfolding body using c(2,3) by (simp add: skipWhitespace_Cons quote_def)
    then show ?thesis by (simp add: fuel del: parseValue.simps)
  qed
next
  case (JObject kvs)
  obtain n where fuel: "fuel = Suc n" using JObject.prems(2) by (cases fuel) auto
  have d: "distinct (map fst kvs)" using JObject.prems(1) by simp
  show ?case
  proof (cases "kvs = []")
    case True
    then show ?thesis by (simp add: fuel skipWhitespace_Cons not_whitespace quote_def)
  next
    case False
    let ?body = "commaJoin (map memberText kvs) @ CHR ''}'' # rest"
    obtain kw kws where kvs: "kvs = kw # kws" using False by (cases kvs) auto
    obtain cs where "memberText kw = quote # cs" using memberText_Cons by blast
    then obtain cs' where body: "?body = quote # cs'" using kvs by (cases kws) simp_all
    have "parseMembers n ?body = Some (kvs, rest)"
    proof (rule parseMembers_join)
      show "kvs \<noteq> []" by (rule False)
      show "length (commaJoin (map memberText kvs)) < n"
        using JObject.prems(2) fuel by (simp add: stringifyValue_JObject del: stringifyValue.simps)
      show "parseValue fuel (stringifyValue (snd kv) @ rest) = Some (snd kv, rest)"
        if "kv \<in> set kvs" "length (stringifyValue (snd kv)) \<le> fuel" "delimited rest"
        for kv fuel rest
      proof (rule JObject.IH)
        show "kv \<in> set kvs" by (rule that(1))
        show "snd kv \<in> Basic_BNFs.snds kv" by (cases kv) simp
        show "representable (snd kv)" using that(1) JObject.prems(1) by (simp add: list_all_iff)
      qed (rule that(2), rule that(3))
    qed
    then have "parseValue (Suc n) (CHR ''{'' # ?body) = Some (objectOf kvs, rest)"
      unfolding body by (simp add: skipWhitespace_Cons isWhitespace_def quote_def)
    then show ?thesis
      by (simp add: fuel stringifyValue_JObject objectOf_distinct [OF d] del: parseValue.simps stringifyValue.simps)
  qed
qed

lemma parseText_stringifyValue: "representable v \<Longrightarrow> parseText (stringifyValue v) = Some v"
  using parseValue_stringifyValue [of v "Suc (length (stringifyValue v))" "[]"]
    skipWhitespace_stringify [of v "[]"]
  by (simp add: parseText_def delimited_simps skipWhitespace_Nil)

lemma JSON_parse_stringify:
  "representable (fieldsOf v) \<Longrightarrow>
     JSON_parse (JSON_stringify (v :: 'p jsvalue)) = Inr (JSValue None (fieldsOf v) :: 'p jsvalue)"
  by (simp add: JSON_parse_def JSON_stringify_def parseText_stringifyValue)

text \<open>
  C9. For every plain value whose data is a JSON-representable array or object and
  for every prototype, \<open>fromJSON proto (getJSON v)\<close> returns a value that has the
  data of \<open>v\<close>, field for field, and the given prototype. The structured values
  are the arrays and the objects; \<^verbatim>\<open>null\<close> is a primitive, and on it the parse
  succeeds and \<^verbatim>\<open>Object.setPrototypeOf\<close> throws a \<^verbatim>\<open>TypeError\<close>.
\<close>

theorem fromJSON_getJSON_round_trip:
  "(plain v \<and> representable (fieldsOf v) \<and> structured (fieldsOf v) \<longrightarrow>
      fromJSON (proto :: 'p) (getJSON (v :: 'p jsvalue))
        = Inr (JSValue (Some proto) (fieldsOf v)))
   \<and> (fieldsOf v = JNull \<longrightarrow> fromJSON proto (getJSON v) = Inl TypeError)"
proof -
  have "fromJSON proto (getJSON v) = Inr (JSValue (Some proto) (fieldsOf v))"
    if "representable (fieldsOf v)" "structured (fieldsOf v)"
    using that(2) JSON_parse_stringify [OF that(1)]
    by (cases "fieldsOf v") (simp_all add: fromJSON_def getJSON_def setPrototypeOf_def)
  moreover have "fromJSON proto (getJSON v) = Inl TypeError" if "fieldsOf v = JNull"
    using JSON_parse_stringify [of v] that
    by (simp add: fromJSON_def getJSON_def setPrototypeOf_def)
  ultimately show ?thesis by blast
qed

theorem fromJSON_getJSON_round_trip_witness:
  \<open>getJSON (JSValue None (JObject [(''width'', JNumber 10), (''tags'', JArray [JString ''a'', JNull])])
       :: string jsvalue)
     = ''{"width":10,"tags":["a",null]}''
   \<and> fromJSON ''Rectangle.prototype''
       (getJSON (JSValue None (JObject [(''width'', JNumber 10), (''tags'', JArray [JString ''a'', JNull])])
          :: string jsvalue))
     = Inr (JSValue (Some ''Rectangle.prototype'')
         (JObject [(''width'', JNumber 10), (''tags'', JArray [JString ''a'', JNull])]))
   \<and> fromJSON ''Rectangle.prototype'' (getJSON (JSValue None JNull :: string jsvalue))
     = Inl TypeError\<close>
proof -
  let ?v = "JSValue None (JObject [(''width'', JNumber 10), (''tags'', JArray [JString ''a'', JNull])])
      :: string jsvalue"
  have h: "plain ?v \<and> representable (fieldsOf ?v) \<and> structured (fieldsOf ?v)"
    by (simp add: plain_def)
  have t: \<open>getJSON ?v = ''{"width":10,"tags":["a",null]}''\<close>
    by code_simp
  have n: "fieldsOf (JSValue None JNull :: string jsvalue) = JNull" by simp
  from h fromJSON_getJSON_round_trip [where v = "?v" and proto = "''Rectangle.prototype''"]
  have a: "fromJSON ''Rectangle.prototype'' (getJSON ?v)
      = Inr (JSValue (Some ''Rectangle.prototype'') (fieldsOf ?v))"
    by blast
  from n fromJSON_getJSON_round_trip [where v = "JSValue None JNull :: string jsvalue"
      and proto = "''Rectangle.prototype''"]
  have b: "fromJSON ''Rectangle.prototype'' (getJSON (JSValue None JNull :: string jsvalue))
      = Inl TypeError"
    by blast
  show ?thesis using t a b by simp
qed

end
